theory Spec2Isabelle
  imports Main "HOL-Library.Sublist" "HOL-Library.Word"
begin

section \<open>Python values used by \<open>validator.py\<close>\<close>

text \<open>
  The module runs under \<open>unicode_literals\<close>: every string is a sequence of Unicode code
  points. A string is therefore a list of code points (natural numbers), so that the
  typographic quotes U+201C and U+201D are single elements, as they are for
  \<open>str.replace\<close>, \<open>in\<close> and \<open>str.splitlines\<close>. The output of a child process is a byte
  string.
\<close>

type_synonym ustr = "nat list"
type_synonym bytes = "8 word list"

definition u :: "string \<Rightarrow> ustr" where
  "u s = map of_char s"

text \<open>The exceptions that the modelled functions raise or let through.\<close>

datatype exn =
    OSError nat
  | JavaNotFoundException
  | CalledProcessError bytes
  | UnicodeDecodeError
  | TypeError
  | AttributeError
  | IndexError
  | KeyError ustr
  | ReError
  | JSONDecodeError
  | OtherError ustr

text \<open>\<open>JavaNotFoundException.__str__\<close>.\<close>

definition JavaNotFoundException_str :: ustr where
  "JavaNotFoundException_str =
     u ''Missing Java Runtime Environment on this system. '' @
     u ''The command \"java\" must be available.''"

text \<open>\<open>errno.ENOENT\<close>, the error number of "no such file or directory".\<close>

definition ENOENT :: nat where
  "ENOENT = 2"

subsection \<open>String operations of the Python library\<close>

text \<open>
  \<open>s.replace(old, new)\<close>: non-overlapping occurrences, left to right; an empty \<open>old\<close>
  matches before every character and at the end.
\<close>

function replace :: "ustr \<Rightarrow> ustr \<Rightarrow> ustr \<Rightarrow> ustr" where
  "replace old new [] = (if old = [] then new else [])"
| "replace old new (c # cs) =
     (if old = [] then new @ c # replace old new cs
      else if prefix old (c # cs) then new @ replace old new (drop (length old) (c # cs))
      else c # replace old new cs)"
  by pat_completeness auto
termination
  by (relation "measure (\<lambda>(old, new, s). length s)") auto

text \<open>\<open>i in l\<close> for two strings: \<open>i\<close> occurs in \<open>l\<close> as a contiguous substring.\<close>

fun contains :: "ustr \<Rightarrow> ustr \<Rightarrow> bool" where
  "contains i [] = (i = [])"
| "contains i (c # cs) = (prefix i (c # cs) \<or> contains i cs)"

text \<open>
  \<open>str.splitlines()\<close>: the line boundaries are LF, CR, CR LF, VT, FF, FS, GS, RS, NEL,
  LS and PS; the boundaries are not kept, and a text that ends in a boundary has no
  empty last line.
\<close>

definition is_linebreak :: "nat \<Rightarrow> bool" where
  "is_linebreak c = (c \<in> {10, 11, 12, 13, 28, 29, 30, 133, 8232, 8233})"

fun splitlines_from :: "ustr \<Rightarrow> ustr \<Rightarrow> ustr list" where
  "splitlines_from cur [] = (if cur = [] then [] else [cur])"
| "splitlines_from cur [c] =
     (if is_linebreak c then [cur] else [cur @ [c]])"
| "splitlines_from cur (c # d # cs) =
     (if c = 13 \<and> d = 10 then cur # splitlines_from [] cs
      else if is_linebreak c then cur # splitlines_from [] (d # cs)
      else splitlines_from (cur @ [c]) (d # cs))"

definition splitlines :: "ustr \<Rightarrow> ustr list" where
  "splitlines s = splitlines_from [] s"

text \<open>
  \<open>os.path.join(a, b)\<close> of \<open>posixpath\<close>, for two arguments: an absolute \<open>b\<close> replaces
  \<open>a\<close>; otherwise a separator is inserted unless \<open>a\<close> is empty or ends in one.
\<close>

definition path_join :: "ustr \<Rightarrow> ustr \<Rightarrow> ustr" where
  "path_join a b =
     (if take 1 b = [47] then b
      else if a = [] \<or> last a = 47 then a @ b
      else a @ [47] @ b)"

text \<open>\<open>'{}'.format(n)\<close> for an integer: its decimal digits, with a sign when negative.\<close>

function str_nat :: "nat \<Rightarrow> ustr" where
  "str_nat n = (if n < 10 then [48 + n] else str_nat (n div 10) @ [48 + n mod 10])"
  by pat_completeness auto
termination
  by (relation "measure id") auto

definition str_int :: "int \<Rightarrow> ustr" where
  "str_int i = (if i < 0 then 45 # str_nat (nat (- i)) else str_nat (nat i))"

text \<open>
  \<open>b.decode('utf-8')\<close> in strict mode: \<open>None\<close> stands for \<open>UnicodeDecodeError\<close>.
  Overlong forms, surrogates and code points above U+10FFFF are rejected.
\<close>

definition is_cont :: "8 word \<Rightarrow> bool" where
  "is_cont b = (128 \<le> unat b \<and> unat b < 192)"

fun utf8_decode :: "bytes \<Rightarrow> ustr option" where
  "utf8_decode [] = Some []"
| "utf8_decode (b # bs) =
     (let n = unat b in
      if n < 128 then map_option (Cons n) (utf8_decode bs)
      else if 194 \<le> n \<and> n < 224 then
        (case bs of
           c1 # r \<Rightarrow>
             if is_cont c1
             then map_option (Cons ((n - 192) * 64 + (unat c1 - 128))) (utf8_decode r)
             else None
         | _ \<Rightarrow> None)
      else if 224 \<le> n \<and> n < 240 then
        (case bs of
           c1 # c2 # r \<Rightarrow>
             (let cp = (n - 224) * 4096 + (unat c1 - 128) * 64 + (unat c2 - 128) in
              if is_cont c1 \<and> is_cont c2 \<and> 2048 \<le> cp \<and> \<not> (55296 \<le> cp \<and> cp < 57344)
              then map_option (Cons cp) (utf8_decode r)
              else None)
         | _ \<Rightarrow> None)
      else if 240 \<le> n \<and> n < 245 then
        (case bs of
           c1 # c2 # c3 # r \<Rightarrow>
             (let cp = (n - 240) * 262144 + (unat c1 - 128) * 4096
                       + (unat c2 - 128) * 64 + (unat c3 - 128) in
              if is_cont c1 \<and> is_cont c2 \<and> is_cont c3 \<and> 65536 \<le> cp \<and> cp < 1114112
              then map_option (Cons cp) (utf8_decode r)
              else None)
         | _ \<Rightarrow> None)
      else None)"

text \<open>\<open>b.strip()\<close> on a byte string: ASCII whitespace is removed at both ends.\<close>

definition is_space_byte :: "8 word \<Rightarrow> bool" where
  "is_space_byte b = (unat b \<in> {9, 10, 11, 12, 13, 32})"

definition bytes_strip :: "bytes \<Rightarrow> bytes" where
  "bytes_strip b = rev (dropWhile is_space_byte (rev (dropWhile is_space_byte b)))"

text \<open>
  \<open>re.sub(STDERR_IGNORE_RE, '', s, flags=re.MULTILINE)\<close> for the module's fixed
  pattern \<open>^Picked up (?:_JAVA_OPTIONS|JAVA_TOOL_OPTIONS):.*\n\<close>. With \<open>re.MULTILINE\<close>,
  \<open>^\<close> matches at the start of the text and after each LF, and \<open>.\<close> matches anything
  but LF: a match is a whole LF-terminated segment that starts with one of the two
  prefixes. The text is cut after each LF and such segments are removed.
\<close>

fun nl_segments_from :: "ustr \<Rightarrow> ustr \<Rightarrow> ustr list" where
  "nl_segments_from cur [] = (if cur = [] then [] else [cur])"
| "nl_segments_from cur (c # cs) =
     (if c = 10 then (cur @ [c]) # nl_segments_from [] cs
      else nl_segments_from (cur @ [c]) cs)"

definition is_java_cruft :: "ustr \<Rightarrow> bool" where
  "is_java_cruft seg =
     ((prefix (u ''Picked up _JAVA_OPTIONS:'') seg
       \<or> prefix (u ''Picked up JAVA_TOOL_OPTIONS:'') seg)
      \<and> seg \<noteq> [] \<and> last seg = 10)"

definition sub_STDERR_IGNORE_RE :: "ustr \<Rightarrow> ustr" where
  "sub_STDERR_IGNORE_RE s = concat (filter (\<lambda>seg. \<not> is_java_cruft seg) (nl_segments_from [] s))"

subsection \<open>Regular expressions and JSON\<close>

text \<open>
  The \<open>re\<close> module is outside the repository. A compiled pattern is taken by what it
  denotes: the relation \<open>m s i j\<close>, "the pattern matches the text \<open>s\<close> from position \<open>i\<close>
  up to position \<open>j\<close>". \<open>regex.search(l)\<close> finds a match if some span of \<open>l\<close> is in the
  relation; \<open>regex.fullmatch(l)\<close> would ask for the span of the whole line.
\<close>

type_synonym matcher = "ustr \<Rightarrow> nat \<Rightarrow> nat \<Rightarrow> bool"

definition re_search :: "matcher \<Rightarrow> ustr \<Rightarrow> bool" where
  "re_search m l =
     list_ex (\<lambda>i. list_ex (\<lambda>j. m l i j) [i..<Suc (length l)]) [0..<Suc (length l)]"

definition re_fullmatch :: "matcher \<Rightarrow> ustr \<Rightarrow> bool" where
  "re_fullmatch m l = m l 0 (length l)"

text \<open>
  A fragment of the pattern syntax, enough for the module's built-in pattern: \<open>\A\<close>,
  \<open>.\<close>, \<open>.*\<close> and characters that stand for themselves. \<open>parse_atoms\<close> reads a pattern
  of the fragment and answers \<open>None\<close> for every other pattern. Without flags, \<open>.\<close>
  matches any character but LF, and \<open>\A\<close> matches, at width zero, at the start only.
\<close>

datatype atom = BeginA | Dot | DotStar | Chr nat

definition is_special :: "nat \<Rightarrow> bool" where
  "is_special c = (c \<in> {36, 40, 41, 42, 43, 63, 91, 92, 93, 94, 123, 124, 125})"

definition is_quantifier :: "nat \<Rightarrow> bool" where
  "is_quantifier c = (c \<in> {42, 43, 63, 123})"

fun parse_atoms :: "ustr \<Rightarrow> atom list option" where
  "parse_atoms [] = Some []"
| "parse_atoms [c] =
     (if c = 46 then Some [Dot] else if is_special c then None else Some [Chr c])"
| "parse_atoms (c # d # cs) =
     (if c = 92 then (if d = 65 then map_option (Cons BeginA) (parse_atoms cs) else None)
      else if c = 46 \<and> d = 42 then
        (case cs of
           [] \<Rightarrow> Some [DotStar]
         | e # r \<Rightarrow> if is_quantifier e then None
                    else map_option (Cons DotStar) (parse_atoms cs))
      else if is_special c \<or> is_quantifier d then None
      else map_option (Cons (if c = 46 then Dot else Chr c)) (parse_atoms (d # cs)))"

fun atom_span :: "atom \<Rightarrow> matcher" where
  "atom_span BeginA s i j = (i = 0 \<and> j = 0)"
| "atom_span Dot s i j = (i < length s \<and> j = Suc i \<and> s ! i \<noteq> 10)"
| "atom_span DotStar s i j = (i \<le> j \<and> j \<le> length s \<and> list_all (\<lambda>k. s ! k \<noteq> 10) [i..<j])"
| "atom_span (Chr c) s i j = (i < length s \<and> j = Suc i \<and> s ! i = c)"

fun atoms_span :: "atom list \<Rightarrow> matcher" where
  "atoms_span [] s i j = (i = j)"
| "atoms_span (a # as) s i j =
     list_ex (\<lambda>k. atom_span a s i k \<and> atoms_span as s k j) [i..<Suc j]"

definition fragment_compile :: "ustr \<Rightarrow> matcher option" where
  "fragment_compile p = map_option atoms_span (parse_atoms p)"

text \<open>The values that \<open>json.loads\<close> returns.\<close>

datatype json =
    JNull
  | JBool bool
  | JInt int
  | JFloat ustr
  | JString ustr
  | JArray "json list"
  | JObject "(ustr \<times> json) list"


subsection \<open>The environment\<close>

text \<open>
  What the module takes from the interpreter, the operating system and the libraries:
  \<open>sys.platform\<close>, \<open>vnujar.__file__\<close>, \<open>subprocess.check_output(cmd)\<close>, the error stream
  that \<open>subprocess.Popen(cmd, ...).communicate()\<close> returns (or the exception that the
  launch raises), \<open>re.compile\<close> (\<open>None\<close> stands for \<open>re.error\<close>) and \<open>json.loads\<close>
  (\<open>None\<close> stands for the decoding error). The module imports \<open>os\<close> only and writes
  \<open>os.errno.ENOENT\<close>: \<open>os_errno_ENOENT\<close> is the value of that expression where the
  module \<open>os\<close> has an attribute \<open>errno\<close> (Python 2, and Python 3 up to 3.6), and \<open>None\<close>
  where it has none (Python 3.7 and later), so that evaluating the expression raises
  \<open>AttributeError\<close>.
\<close>

record pyenv =
  platform :: ustr
  vnujar_file :: ustr
  check_output :: "ustr list \<Rightarrow> exn + bytes"
  popen_communicate :: "ustr list \<Rightarrow> exn + bytes"
  re_compile :: "ustr \<Rightarrow> matcher option"
  json_loads :: "ustr \<Rightarrow> json option"
  os_errno_ENOENT :: "nat option"

text \<open>
  An engine for regular expressions agrees with the fragment when it compiles every
  pattern of the fragment and \<open>search\<close> finds a match exactly where the atoms have one.
\<close>

definition re_agrees_on_fragment :: "pyenv \<Rightarrow> bool" where
  "re_agrees_on_fragment env =
     (\<forall>p as. parse_atoms p = Some as \<longrightarrow>
        (\<exists>m. re_compile env p = Some m \<and> (\<forall>l. re_search m l = re_search (atoms_span as) l)))"

text \<open>
  A small concrete environment, used to run the model on examples: a POSIX platform
  with an interpreter of version 3.7 or later (no \<open>os.errno\<close>), the fragment as the
  regular-expression engine, a JSON reader that knows the empty result document only,
  and an engine launch that is a parameter.
\<close>

definition small_json_loads :: "ustr \<Rightarrow> json option" where
  "small_json_loads s =
     (if s = u ''{\"messages\":[]}'' then Some (JObject [(u ''messages'', JArray [])])
      else None)"

definition small_env :: "(ustr list \<Rightarrow> exn + bytes) \<Rightarrow> pyenv" where
  "small_env launch =
     \<lparr> platform = u ''linux'',
       vnujar_file = u ''/lib/vnujar/__init__.py'',
       check_output = (\<lambda>cmd. Inl (OSError ENOENT)),
       popen_communicate = launch,
       re_compile = fragment_compile,
       json_loads = small_json_loads,
       os_errno_ENOENT = None \<rparr>"

definition utf8_bytes :: "string \<Rightarrow> bytes" where
  "utf8_bytes s = map of_char s"

section \<open>The module \<open>validator.py\<close>\<close>

text \<open>The module's constants. In \<open>DEFAULT_IGNORE_RE\<close>, 92 is the backslash of \<open>\A\<close>.\<close>

definition DEFAULT_IGNORE_RE :: "ustr list" where
  "DEFAULT_IGNORE_RE = [92 # u ''ADocument checking completed. No errors found.*'']"

definition DEFAULT_IGNORE :: "ustr list" where
  "DEFAULT_IGNORE = [u ''{\"messages\":[]}'']"

definition DEFAULT_IGNORE_XML :: "ustr list" where
  "DEFAULT_IGNORE_XML =
     [u ''</messages>'',
      u ''<?xml version='1.0' encoding='utf-8'?>'',
      u ''<messages xmlns=\"http://n.validator.nu/messages/\">'']"

record validator =
  ignore :: "ustr list"
  ignore_re :: "ustr list"
  stack_size :: "int option"
  errors_only :: bool
  detect_language :: bool
  format :: "ustr option"
  vnu_args :: "ustr list option"
  vnu_jar_location :: ustr

text \<open>\<open>Validator._normalize_string\<close>: U+201C, then U+201D, become the ASCII quote.\<close>

definition normalize_string :: "ustr \<Rightarrow> ustr" where
  "normalize_string s = replace [8221] [34] (replace [8220] [34] s)"

text \<open>\<open>Validator._cygwin_path_convert\<close>.\<close>

definition cygwin_path_convert :: "pyenv \<Rightarrow> ustr \<Rightarrow> exn + ustr" where
  "cygwin_path_convert env filepath =
     (case check_output env [u ''cygpath'', u ''-w'', filepath] of
        Inl e \<Rightarrow> Inl e
      | Inr out \<Rightarrow>
          (case utf8_decode (bytes_strip out) of
             None \<Rightarrow> Inl UnicodeDecodeError
           | Some s \<Rightarrow> Inr s))"

text \<open>
  \<open>Validator.__init__\<close>. The arguments \<open>ignore\<close> and \<open>ignore_re\<close> are \<open>None\<close> or list
  objects of the caller, and \<open>+=\<close> extends a list object in place. The caller's list
  objects are therefore kept in a heap, by address, and the two arguments are addresses
  (the same address twice when the caller passes one list object for both).
  \<open>ignore if ignore else []\<close> binds the attribute to the caller's object when that is a
  non-empty list, and to a new empty list otherwise (\<open>bind_arg\<close>); \<open>self.ignore_re +=
  DEFAULT_IGNORE_RE\<close> and then \<open>self.ignore += DEFAULT_IGNORE\<close> extend the bound objects
  (\<open>extend\<close>); the two list comprehensions then read the objects (\<open>deref\<close>) into new
  lists. The heap is returned with the result: the caller's lists stay extended.
\<close>

type_synonym heap = "nat \<Rightarrow> ustr list"

datatype list_obj = Caller nat | Fresh "ustr list"

definition bind_arg :: "heap \<Rightarrow> nat option \<Rightarrow> list_obj" where
  "bind_arg h arg =
     (case arg of
        None \<Rightarrow> Fresh []
      | Some a \<Rightarrow> if h a = [] then Fresh [] else Caller a)"

definition extend :: "list_obj \<Rightarrow> ustr list \<Rightarrow> heap \<Rightarrow> list_obj \<times> heap" where
  "extend obj ys h =
     (case obj of
        Caller a \<Rightarrow> (Caller a, h(a := h a @ ys))
      | Fresh xs \<Rightarrow> (Fresh (xs @ ys), h))"

definition deref :: "heap \<Rightarrow> list_obj \<Rightarrow> ustr list" where
  "deref h obj = (case obj of Caller a \<Rightarrow> h a | Fresh xs \<Rightarrow> xs)"

definition Validator_init ::
  "pyenv \<Rightarrow> heap \<Rightarrow> nat option \<Rightarrow> nat option \<Rightarrow> bool \<Rightarrow> bool \<Rightarrow> ustr option
     \<Rightarrow> int option \<Rightarrow> ustr list option \<Rightarrow> (exn + validator) \<times> heap" where
  "Validator_init env h ignore_arg ignore_re_arg errors_only_arg detect_language_arg
       format_arg stack_size_arg vnu_args_arg =
     (let self_ignore = bind_arg h ignore_arg;
          self_ignore_re = bind_arg h ignore_re_arg;
          (self_ignore_re1, h1) = extend self_ignore_re DEFAULT_IGNORE_RE h;
          (self_ignore1, h2) = extend self_ignore DEFAULT_IGNORE h1;
          ignore_new = map normalize_string (deref h2 self_ignore1);
          ignore_re_new = map normalize_string (deref h2 self_ignore_re1);
          jar = replace (u ''__init__.py'') (u ''vnu.jar'')
                  (replace (u ''__init__.pyc'') (u ''vnu.jar'') (vnujar_file env))
      in (case (if platform env = u ''cygwin'' then cygwin_path_convert env jar else Inr jar) of
            Inl e \<Rightarrow> Inl e
          | Inr location \<Rightarrow>
              Inr \<lparr> ignore = ignore_new,
                    ignore_re = ignore_re_new,
                    stack_size = stack_size_arg,
                    errors_only = errors_only_arg,
                    detect_language = detect_language_arg,
                    format = format_arg,
                    vnu_args = vnu_args_arg,
                    vnu_jar_location = location \<rparr>,
          h2))"

text \<open>\<open>Validator._java_options\<close> and \<open>Validator._vnu_options\<close>.\<close>

definition java_options :: "validator \<Rightarrow> ustr list" where
  "java_options v =
     (case stack_size v of None \<Rightarrow> [] | Some n \<Rightarrow> [u ''-Xss'' @ str_int n @ u ''k''])"

definition vnu_options :: "validator \<Rightarrow> ustr option \<Rightarrow> ustr list" where
  "vnu_options v format_arg =
     (let fmt = (case format_arg of None \<Rightarrow> format v | Some f \<Rightarrow> Some f)
      in (if errors_only v then [u ''--errors-only''] else [])
         @ (if \<not> detect_language v then [u ''--no-langdetect''] else [])
         @ (case fmt of None \<Rightarrow> [] | Some f \<Rightarrow> [u ''--format'', f])
         @ (case vnu_args v of None \<Rightarrow> [] | Some args \<Rightarrow> args))"

text \<open>
  \<open>Validator.all_files\<close>. \<open>os.walk\<close> reads a directory tree: a directory has its
  sub-directories, by name, and the names of its other entries. Walking top-down, it
  yields each directory with the list \<open>dirnames\<close>, which the loop body edits in place
  before \<open>os.walk\<close> descends into the names that are left.
\<close>

datatype fs = Dir (subdirs: "(ustr \<times> fs) list") (filenames: "ustr list")

text \<open>\<open>match\<close> is one pattern or a list of patterns; one pattern becomes a list of one.\<close>

datatype match_arg = Pattern ustr | Patterns "ustr list"

text \<open>\<open>name[0] == '.'\<close>: indexing an empty string raises \<open>IndexError\<close>.\<close>

fun first_is_dot :: "ustr \<Rightarrow> exn + bool" where
  "first_is_dot [] = Inl IndexError"
| "first_is_dot (c # cs) = Inr (c = 46)"

text \<open>
  The loop \<open>for b in blacklist: if b in dirnames: dirnames.remove(b)\<close>;
  \<open>list.remove\<close> removes the first occurrence.
\<close>

fun remove_blacklisted :: "ustr list \<Rightarrow> ustr list \<Rightarrow> ustr list" where
  "remove_blacklisted [] dirnames = dirnames"
| "remove_blacklisted (b # bs) dirnames =
     remove_blacklisted bs (if b \<in> set dirnames then remove1 b dirnames else dirnames)"

text \<open>
  \<open>invisible_dirs = [d for d in dirnames if d[0] == '.']\<close> and the loop that removes
  each of them from \<open>dirnames\<close> (each is in the list, so \<open>remove\<close> does not raise).
\<close>

fun invisible_of :: "ustr list \<Rightarrow> exn + ustr list" where
  "invisible_of [] = Inr []"
| "invisible_of (d # ds) =
     (case first_is_dot d of
        Inl e \<Rightarrow> Inl e
      | Inr dot \<Rightarrow>
          (case invisible_of ds of
             Inl e \<Rightarrow> Inl e
           | Inr r \<Rightarrow> Inr (if dot then d # r else r)))"

fun remove_each :: "ustr list \<Rightarrow> ustr list \<Rightarrow> ustr list" where
  "remove_each [] dirnames = dirnames"
| "remove_each (d # ds) dirnames = remove_each ds (remove1 d dirnames)"

text \<open>
  The loop over \<open>fnmatch.filter(filenames, pattern)\<close> for one pattern, and the loop over
  the patterns. \<open>skip_invisible and filename[0] == '.'\<close> reads the first character only
  when \<open>skip_invisible\<close> holds. \<open>fnmatch\<close> is outside the repository: the test "the name
  matches the pattern" is a parameter.
\<close>

fun append_matches :: "bool \<Rightarrow> ustr \<Rightarrow> ustr list \<Rightarrow> exn + ustr list" where
  "append_matches skip_invisible root [] = Inr []"
| "append_matches skip_invisible root (filename # rest) =
     (case (if skip_invisible then first_is_dot filename else Inr False) of
        Inl e \<Rightarrow> Inl e
      | Inr hidden \<Rightarrow>
          (case append_matches skip_invisible root rest of
             Inl e \<Rightarrow> Inl e
           | Inr r \<Rightarrow> Inr (if hidden then r else path_join root filename # r)))"

fun match_patterns ::
  "(ustr \<Rightarrow> ustr \<Rightarrow> bool) \<Rightarrow> ustr list \<Rightarrow> bool \<Rightarrow> ustr \<Rightarrow> ustr list \<Rightarrow> exn + ustr list" where
  "match_patterns fnmatch [] skip_invisible root fnames = Inr []"
| "match_patterns fnmatch (pattern # rest) skip_invisible root fnames =
     (case append_matches skip_invisible root (filter (\<lambda>name. fnmatch name pattern) fnames) of
        Inl e \<Rightarrow> Inl e
      | Inr a \<Rightarrow>
          (case match_patterns fnmatch rest skip_invisible root fnames of
             Inl e \<Rightarrow> Inl e
           | Inr b \<Rightarrow> Inr (a @ b)))"

text \<open>The first exception of a sequence of results, or all the values.\<close>

fun all_results :: "(exn + 'a) list \<Rightarrow> exn + 'a list" where
  "all_results [] = Inr []"
| "all_results (x # xs) =
     (case x of
        Inl e \<Rightarrow> Inl e
      | Inr a \<Rightarrow> (case all_results xs of Inl e \<Rightarrow> Inl e | Inr r \<Rightarrow> Inr (a # r)))"

text \<open>
  One round of the loop per directory that \<open>os.walk\<close> yields: its \<open>root\<close> string and the
  paths appended to \<open>files\<close> there; then the sub-directories left in \<open>dirnames\<close>, in
  order. For the statements about the traversal, each round also records the names of
  the directories descended through from the top (\<open>comps\<close>); the result does not depend
  on them.
\<close>

type_synonym visit = "ustr list \<times> ustr \<times> ustr list"

function walk ::
  "(ustr \<Rightarrow> ustr \<Rightarrow> bool) \<Rightarrow> ustr list \<Rightarrow> ustr list \<Rightarrow> bool \<Rightarrow> ustr list \<Rightarrow> ustr \<Rightarrow> fs
     \<Rightarrow> exn + visit list" where
  "walk fnmatch match blacklist skip_invisible comps root (Dir subs fnames) =
     (let dirnames = remove_blacklisted blacklist (map fst subs)
      in case (if skip_invisible
               then (case invisible_of dirnames of
                       Inl e \<Rightarrow> Inl e
                     | Inr invisible_dirs \<Rightarrow> Inr (remove_each invisible_dirs dirnames))
               else Inr dirnames) of
           Inl e \<Rightarrow> Inl e
         | Inr kept \<Rightarrow>
             (case match_patterns fnmatch match skip_invisible root fnames of
                Inl e \<Rightarrow> Inl e
              | Inr found \<Rightarrow>
                  (case all_results
                          (map (\<lambda>d. case map_of subs d of
                                      None \<Rightarrow> Inr []
                                    | Some t \<Rightarrow>
                                        walk fnmatch match blacklist skip_invisible
                                          (comps @ [d]) (path_join root d) t)
                               kept) of
                     Inl e \<Rightarrow> Inl e
                   | Inr below \<Rightarrow> Inr ((comps, root, found) # concat below))))"
  by pat_completeness auto
termination
proof (relation "measure (\<lambda>(fnmatch, match, blacklist, skip_invisible, comps, root, t). size t)")
  show "wf (measure (\<lambda>(fnmatch, match, blacklist, skip_invisible, comps, root, t). size t))"
    by simp
next
  fix fnmatch :: "ustr \<Rightarrow> ustr \<Rightarrow> bool" and match blacklist :: "ustr list"
    and skip_invisible :: bool and comps :: "ustr list" and root :: ustr
    and subs :: "(ustr \<times> fs) list" and fnames :: "ustr list" and d :: ustr and t :: fs
  assume "map_of subs d = Some t"
  then have "(d, t) \<in> set subs" by (rule map_of_SomeD)
  then have "size t < size (Dir subs fnames)"
    by (induction subs) auto
  then show "((fnmatch, match, blacklist, skip_invisible, comps @ [d], path_join root d, t),
              (fnmatch, match, blacklist, skip_invisible, comps, root, Dir subs fnames))
             \<in> measure (\<lambda>(fnmatch, match, blacklist, skip_invisible, comps, root, t). size t)"
    by simp
qed

text \<open>
  \<open>all_files\<close> itself: \<open>tree\<close> is the directory tree at \<open>directory\<close>, \<open>None\<close> when there is
  no such directory (\<open>os.walk\<close> then yields nothing).
\<close>

definition all_files ::
  "(ustr \<Rightarrow> ustr \<Rightarrow> bool) \<Rightarrow> fs option \<Rightarrow> ustr \<Rightarrow> match_arg \<Rightarrow> ustr list option \<Rightarrow> bool
     \<Rightarrow> exn + ustr list" where
  "all_files fnmatch tree directory match blacklist skip_invisible =
     (let blacklist' = (case blacklist of None \<Rightarrow> [] | Some b \<Rightarrow> b);
          match' = (case match of Pattern p \<Rightarrow> [p] | Patterns ps \<Rightarrow> ps)
      in case tree of
           None \<Rightarrow> Inr []
         | Some t \<Rightarrow>
             (case walk fnmatch match' blacklist' skip_invisible [] directory t of
                Inl e \<Rightarrow> Inl e
              | Inr visits \<Rightarrow> Inr (concat (map (\<lambda>(comps, root, found). found) visits))))"

text \<open>
  \<open>Validator._run_validator\<close>. The result is paired with the list of engine commands
  that were spawned, so that the number of launches can be stated. The path conversion
  on Cygwin runs before the \<open>try\<close> block; its exceptions are not handled. Inside the
  block, the handler for \<open>OSError\<close> first evaluates \<open>e.errno == os.errno.ENOENT\<close>: where
  \<open>os\<close> has no attribute \<open>errno\<close> this raises \<open>AttributeError\<close>, whatever the error was;
  otherwise an \<open>OSError\<close> with that error number becomes \<open>JavaNotFoundException\<close> and any
  other \<open>OSError\<close> is raised again. The clause for \<open>CalledProcessError\<close> (which \<open>Popen\<close>
  and \<open>communicate\<close> do not raise) tries to raise a string, which is a \<open>TypeError\<close>. The
  test before the quote normalisation reads the argument \<open>format\<close>, not \<open>self.format\<close>.
\<close>

fun convert_all :: "pyenv \<Rightarrow> ustr list \<Rightarrow> exn + ustr list" where
  "convert_all env [] = Inr []"
| "convert_all env (f # fs) =
     (case cygwin_path_convert env f of
        Inl e \<Rightarrow> Inl e
      | Inr f' \<Rightarrow> (case convert_all env fs of Inl e \<Rightarrow> Inl e | Inr r \<Rightarrow> Inr (f' # r)))"

definition engine_cmd :: "validator \<Rightarrow> ustr option \<Rightarrow> ustr list \<Rightarrow> ustr list" where
  "engine_cmd v format_arg files =
     [u ''java''] @ java_options v @ [u ''-jar'', vnu_jar_location v]
       @ vnu_options v format_arg @ files"

definition run_validator ::
  "pyenv \<Rightarrow> validator \<Rightarrow> ustr list \<Rightarrow> ustr option \<Rightarrow> (exn + ustr) \<times> ustr list list" where
  "run_validator env v files format_arg =
     (case (if platform env = u ''cygwin'' then convert_all env files else Inr files) of
        Inl e \<Rightarrow> (Inl e, [])
      | Inr files' \<Rightarrow>
          (let cmd = engine_cmd v format_arg files'
           in ((case popen_communicate env cmd of
                  Inl (OSError n) \<Rightarrow>
                    (case os_errno_ENOENT env of
                       None \<Rightarrow> Inl AttributeError
                     | Some enoent \<Rightarrow>
                         if n = enoent then Inl JavaNotFoundException else Inl (OSError n))
                | Inl (CalledProcessError out) \<Rightarrow>
                    (case utf8_decode out of
                       None \<Rightarrow> Inl UnicodeDecodeError
                     | Some msg \<Rightarrow> Inl TypeError)
                | Inl e \<Rightarrow> Inl e
                | Inr raw \<Rightarrow>
                    (case utf8_decode raw of
                       None \<Rightarrow> Inl UnicodeDecodeError
                     | Some s \<Rightarrow>
                         (let stderr = sub_STDERR_IGNORE_RE s
                          in if format_arg \<noteq> Some (u ''json'')
                             then Inr (normalize_string stderr)
                             else Inr stderr))),
               [cmd])))"

text \<open>
  \<open>Validator.validate\<close>, in the order of its statements: the call of
  \<open>_run_validator\<close> without a format argument; \<open>splitlines\<close> and \<open>filter(None, e)\<close>, which
  drops the empty strings; the statement \<open>if self.format == "xml" and len(e) < 4\<close>
  (\<open>override_ignore\<close>); the loop over \<open>self.ignore\<close> (\<open>filter_ignore\<close>) and the loop over
  \<open>self.ignore_re\<close> (\<open>filter_ignore_re\<close>), in which \<open>re.compile\<close> is called once per pattern,
  in order, also when no line is left; and \<open>len(e)\<close>. \<open>surviving_lines\<close> is the part
  between the engine call and \<open>len\<close>: it yields the list \<open>e\<close> that is counted. The
  assignment \<open>self.ignore = DEFAULT_IGNORE_XML\<close> changes the object, so the validator is
  returned with the result. Logging is not modelled.
\<close>

fun filter_ignore :: "ustr list \<Rightarrow> ustr list \<Rightarrow> ustr list" where
  "filter_ignore [] e = e"
| "filter_ignore (i # rest) e = filter_ignore rest (filter (\<lambda>l. \<not> contains i l) e)"

fun filter_ignore_re :: "pyenv \<Rightarrow> ustr list \<Rightarrow> ustr list \<Rightarrow> exn + ustr list" where
  "filter_ignore_re env [] e = Inr e"
| "filter_ignore_re env (i # rest) e =
     (case re_compile env i of
        None \<Rightarrow> Inl ReError
      | Some regex \<Rightarrow> filter_ignore_re env rest (filter (\<lambda>l. \<not> re_search regex l) e))"

definition override_ignore :: "validator \<Rightarrow> ustr list \<Rightarrow> validator" where
  "override_ignore v e =
     (if format v = Some (u ''xml'') \<and> length e < 4
      then v\<lparr>ignore := DEFAULT_IGNORE_XML\<rparr> else v)"

definition surviving_lines :: "pyenv \<Rightarrow> validator \<Rightarrow> ustr \<Rightarrow> (exn + ustr list) \<times> validator" where
  "surviving_lines env v stderr =
     (let e = filter (\<lambda>l. l \<noteq> []) (splitlines stderr);
          v' = override_ignore v e
      in (filter_ignore_re env (ignore_re v') (filter_ignore (ignore v') e), v'))"

definition validate :: "pyenv \<Rightarrow> validator \<Rightarrow> ustr list \<Rightarrow> (exn + nat) \<times> validator" where
  "validate env v files =
     (case fst (run_validator env v files None) of
        Inl err \<Rightarrow> (Inl err, v)
      | Inr stderr \<Rightarrow>
          (case surviving_lines env v stderr of
             (Inl err, v') \<Rightarrow> (Inl err, v')
           | (Inr e, v') \<Rightarrow> (Inr (length e), v')))"


text \<open>
  For examples: the heap of a caller that holds the list \<open>['foo']\<close> at address 0, and
  the validator that \<open>Validator(ignore=L)\<close> builds when \<open>L\<close> is that list.
\<close>

definition foo_heap :: heap where
  "foo_heap = (\<lambda>a. [])(0 := [u ''foo''])"

definition example_validator :: validator where
  "example_validator =
     \<lparr> ignore = [u ''foo''] @ DEFAULT_IGNORE, ignore_re = DEFAULT_IGNORE_RE,
       stack_size = None, errors_only = False, detect_language = True,
       format = None, vnu_args = None, vnu_jar_location = u ''/lib/vnujar/vnu.jar'' \<rparr>"

text \<open>The same validator with the format \<open>xml\<close>.\<close>

definition xml_validator :: validator where
  "xml_validator = example_validator\<lparr>format := Some (u ''xml'')\<rparr>"

text \<open>
  Examples of engine output: a clean result in the \<open>xml\<close> format (the three lines of the
  envelope, with an empty line between them), and a result in the default format with
  one finding, one line that holds the example's literal \<open>foo\<close>, and the all-clear line.
  Each comes as the bytes of the error stream and as the text they decode to.
\<close>

definition clean_xml_envelope :: "ustr list" where
  "clean_xml_envelope =
     [u ''<?xml version='1.0' encoding='utf-8'?>'',
      u ''<messages xmlns=\"http://n.validator.nu/messages/\">'',
      u ''</messages>'']"

definition clean_xml_output :: bytes where
  "clean_xml_output =
     utf8_bytes ''<?xml version='1.0' encoding='utf-8'?>'' @ [10]
     @ utf8_bytes ''<messages xmlns=\"http://n.validator.nu/messages/\">'' @ [10, 10]
     @ utf8_bytes ''</messages>'' @ [10]"

definition clean_xml_text :: ustr where
  "clean_xml_text =
     u ''<?xml version='1.0' encoding='utf-8'?>'' @ [10]
     @ u ''<messages xmlns=\"http://n.validator.nu/messages/\">'' @ [10, 10]
     @ u ''</messages>'' @ [10]"

definition gnu_output :: bytes where
  "gnu_output =
     utf8_bytes ''error: bad'' @ [10] @ utf8_bytes ''a foo b'' @ [10, 10]
     @ utf8_bytes ''Document checking completed. No errors found.'' @ [10]"

definition gnu_text :: ustr where
  "gnu_text =
     u ''error: bad'' @ [10] @ u ''a foo b'' @ [10, 10]
     @ u ''Document checking completed. No errors found.'' @ [10]"

text \<open>
  A validator configured with the format \<open>json\<close>, and an engine result in that format
  whose message holds typographic quotes: the bytes, the text they decode to, and the
  text after \<open>normalize_string\<close>.
\<close>

definition json_validator :: validator where
  "json_validator = example_validator\<lparr>format := Some (u ''json'')\<rparr>"

definition json_output :: bytes where
  "json_output =
     utf8_bytes ''{\"messages\":[{\"type\":\"info\",\"message\":\"Consider adding a ''
     @ [0xE2, 0x80, 0x9C] @ utf8_bytes ''lang'' @ [0xE2, 0x80, 0x9D]
     @ utf8_bytes '' attribute\"}]}'' @ [10]"

definition json_text :: ustr where
  "json_text =
     u ''{\"messages\":[{\"type\":\"info\",\"message\":\"Consider adding a ''
     @ [8220] @ u ''lang'' @ [8221] @ u '' attribute\"}]}'' @ [10]"

definition json_text_normalized :: ustr where
  "json_text_normalized =
     u ''{\"messages\":[{\"type\":\"info\",\"message\":\"Consider adding a ''
     @ [34] @ u ''lang'' @ [34] @ u '' attribute\"}]}'' @ [10]"

text \<open>A result in the \<open>xml\<close> format with two findings, one of them holding \<open>foo\<close>.\<close>

definition findings_xml_output :: bytes where
  "findings_xml_output =
     utf8_bytes ''<?xml version='1.0' encoding='utf-8'?>'' @ [10]
     @ utf8_bytes ''<messages xmlns=\"http://n.validator.nu/messages/\">'' @ [10]
     @ utf8_bytes ''<error><message>foo</message></error>'' @ [10]
     @ utf8_bytes ''<error><message>bar</message></error>'' @ [10]
     @ utf8_bytes ''</messages>'' @ [10]"

definition findings_xml_lines :: "ustr list" where
  "findings_xml_lines =
     [u ''<?xml version='1.0' encoding='utf-8'?>'',
      u ''<messages xmlns=\"http://n.validator.nu/messages/\">'',
      u ''<error><message>foo</message></error>'',
      u ''<error><message>bar</message></error>'',
      u ''</messages>'']"



text \<open>
  A sequence of \<open>validate\<close> calls on one validator object, each in its own environment:
  the object after the last call.
\<close>

fun validate_calls :: "validator \<Rightarrow> (pyenv \<times> ustr list) list \<Rightarrow> validator" where
  "validate_calls v [] = v"
| "validate_calls v ((env, files) # rest) = validate_calls (snd (validate env v files)) rest"

text \<open>
  Positions in a tree: the directory reached through a chain of names, and "the
  directory at \<open>ds\<close> holds a file named \<open>f\<close>". In a tree as a file system has it, the
  names of the sub-directories of one directory are distinct, and no name is empty or
  holds a slash.
\<close>

fun subtree :: "fs \<Rightarrow> ustr list \<Rightarrow> fs option" where
  "subtree t [] = Some t"
| "subtree (Dir subs fnames) (d # ds) =
     (case map_of subs d of None \<Rightarrow> None | Some t \<Rightarrow> subtree t ds)"

definition file_at :: "fs \<Rightarrow> ustr list \<Rightarrow> ustr \<Rightarrow> bool" where
  "file_at t ds f = (case subtree t ds of None \<Rightarrow> False | Some d \<Rightarrow> f \<in> set (filenames d))"

definition good_name :: "ustr \<Rightarrow> bool" where
  "good_name n = (n \<noteq> [] \<and> 47 \<notin> set n)"

fun wf_fs :: "fs \<Rightarrow> bool" where
  "wf_fs (Dir subs fnames) =
     (distinct (map fst subs)
      \<and> list_all good_name (map fst subs) \<and> list_all good_name fnames
      \<and> list_all (\<lambda>x. wf_fs (snd x)) subs)"

text \<open>
  An example: a pattern test that knows a leading \<open>*\<close> only, and a site with a
  \<open>node_modules\<close> directory, a hidden directory and a hidden file.
\<close>

definition star_suffix_match :: "ustr \<Rightarrow> ustr \<Rightarrow> bool" where
  "star_suffix_match name pattern =
     (case pattern of
        [] \<Rightarrow> name = []
      | c # rest \<Rightarrow> if c = 42 then prefix (rev rest) (rev name) else name = pattern)"

definition site_tree :: fs where
  "site_tree =
     Dir [(u ''node_modules'', Dir [] [u ''x.html'']),
          (u ''docs'', Dir [(u ''.git'', Dir [] [u ''h.html''])] [u ''a.html'', u ''.b.html''])]
         [u ''index.html'', u ''style.css'']"

section \<open>Properties\<close>

subsection \<open>Library facts\<close>

lemma replace_single: "replace [a] [b] s = map (\<lambda>c. if c = a then b else c) s"
  by (induction s) auto

lemma normalize_string_map:
  "normalize_string s = map (\<lambda>c. if c = 8220 \<or> c = 8221 then 34 else c) s"
  by (simp add: normalize_string_def replace_single)

lemma contains_iff: "contains i l \<longleftrightarrow> (\<exists>ps ss. l = ps @ i @ ss)"
proof (induction l)
  case Nil
  then show ?case by auto
next
  case (Cons c cs)
  show ?case
  proof
    assume "contains i (c # cs)"
    then consider "prefix i (c # cs)" | "contains i cs" by auto
    then show "\<exists>ps ss. c # cs = ps @ i @ ss"
    proof cases
      case 1
      then obtain ss where "c # cs = i @ ss" by (auto simp: prefix_def)
      then have "c # cs = [] @ i @ ss" by simp
      then show ?thesis by blast
    next
      case 2
      with Cons.IH obtain ps ss where "cs = ps @ i @ ss" by blast
      then have "c # cs = (c # ps) @ i @ ss" by simp
      then show ?thesis by blast
    qed
  next
    assume "\<exists>ps ss. c # cs = ps @ i @ ss"
    then obtain ps ss where eq: "c # cs = ps @ i @ ss" by blast
    show "contains i (c # cs)"
    proof (cases ps)
      case Nil
      with eq have "prefix i (c # cs)" by (simp add: prefix_def)
      then show ?thesis by simp
    next
      case (Cons p ps')
      with eq have "cs = ps' @ i @ ss" by simp
      with Cons.IH have "contains i cs" by blast
      then show ?thesis by simp
    qed
  qed
qed

lemma filter_ignore_eq:
  "filter_ignore is e = filter (\<lambda>l. \<forall>i\<in>set is. \<not> contains i l) e"
  by (induction "is" arbitrary: e) (auto intro: filter_cong)

lemma filter_ignore_re_eq:
  "\<forall>p\<in>set ps. re_compile env p \<noteq> None \<Longrightarrow>
   filter_ignore_re env ps e =
     Inr (filter (\<lambda>l. \<forall>p\<in>set ps. \<forall>m. re_compile env p = Some m \<longrightarrow> \<not> re_search m l) e)"
  by (induction ps arbitrary: e) (auto intro: filter_cong)

lemma filter_ignore_re_error:
  "\<exists>p\<in>set ps. re_compile env p = None \<Longrightarrow> filter_ignore_re env ps e = Inl ReError"
  by (induction ps arbitrary: e) (auto split: option.splits)

lemma re_search_iff:
  "re_search m l \<longleftrightarrow> (\<exists>i j. i \<le> j \<and> j \<le> length l \<and> m l i j)"
proof
  assume "re_search m l"
  then obtain i j where "i \<in> set [0..<Suc (length l)]" "j \<in> set [i..<Suc (length l)]" "m l i j"
    unfolding re_search_def list_ex_iff by blast
  then have "i \<le> j \<and> j \<le> length l \<and> m l i j"
    by (simp only: set_upt atLeastLessThan_iff less_Suc_eq_le)
  then show "\<exists>i j. i \<le> j \<and> j \<le> length l \<and> m l i j"
    by blast
next
  assume "\<exists>i j. i \<le> j \<and> j \<le> length l \<and> m l i j"
  then obtain i j where ij: "i \<le> j" "j \<le> length l" "m l i j" by blast
  then have "i \<in> {0..<Suc (length l)}" "j \<in> {i..<Suc (length l)}"
    by auto
  then have "i \<in> set [0..<Suc (length l)]" "j \<in> set [i..<Suc (length l)]"
    by (simp_all only: set_upt)
  with ij(3) show "re_search m l"
    unfolding re_search_def list_ex_iff by blast
qed

lemma parse_default:
  "parse_atoms (92 # u ''ADocument checking completed. No errors found.*'') =
     Some (BeginA # map (\<lambda>c. if c = 46 then Dot else Chr c)
             (u ''Document checking completed. No errors found'') @ [DotStar])"
  by (simp add: u_def is_special_def is_quantifier_def)

subsection \<open>The fragment of regular expressions\<close>

lemma atoms_span_Cons_iff:
  "atoms_span (a # as) s i j \<longleftrightarrow> (\<exists>k. i \<le> k \<and> k \<le> j \<and> atom_span a s i k \<and> atoms_span as s k j)"
proof -
  have "set [i..<Suc j] = {k. i \<le> k \<and> k \<le> j}" by auto
  then show ?thesis
    by (simp only: atoms_span.simps list_ex_iff Bex_def mem_Collect_eq conj_assoc)
qed

lemma prefix_Cons_drop:
  assumes "prefix (c # w) (drop i s)"
  shows "i < length s \<and> s ! i = c \<and> prefix w (drop (Suc i) s)"
proof -
  from assms obtain t where t: "drop i s = c # (w @ t)"
    by (auto simp: prefix_def)
  then have i: "i < length s"
    by (metis drop_all list.discI not_le_imp_less)
  then have "drop i s = s ! i # drop (Suc i) s"
    by (simp add: Cons_nth_drop_Suc)
  with t have "s ! i = c" "drop (Suc i) s = w @ t" by simp_all
  with i show ?thesis by (simp add: prefix_def)
qed

lemma atoms_span_literal_prefix:
  assumes "prefix w (drop i s)" and "10 \<notin> set w"
    and "atoms_span rest s (i + length w) j" and "i + length w \<le> j"
  shows "atoms_span (map (\<lambda>c. if c = 46 then Dot else Chr c) w @ rest) s i j"
  using assms
proof (induction w arbitrary: i)
  case Nil
  then show ?case by simp
next
  case (Cons c w)
  from prefix_Cons_drop[OF Cons.prems(1)] have i: "i < length s" and c: "s ! i = c"
    and rest: "prefix w (drop (Suc i) s)" by simp_all
  have tail: "atoms_span (map (\<lambda>c. if c = 46 then Dot else Chr c) w @ rest) s (Suc i) j"
    using Cons.IH[OF rest] Cons.prems by simp
  have hd: "atom_span (if c = 46 then Dot else Chr c) s i (Suc i)"
    using i c Cons.prems(2) by auto
  have le: "i \<le> Suc i" "Suc i \<le> j" using Cons.prems(4) by simp_all
  have "atoms_span ((if c = 46 then Dot else Chr c) # (map (\<lambda>c. if c = 46 then Dot else Chr c) w @ rest)) s i j"
    unfolding atoms_span_Cons_iff using hd tail le by blast
  then show ?case by simp
qed

lemma atoms_span_BeginA_Chr:
  assumes "atoms_span (BeginA # Chr c # rest) s i j"
  shows "i = 0 \<and> s \<noteq> [] \<and> s ! 0 = c"
proof -
  from assms obtain k where k: "atom_span BeginA s i k" "atoms_span (Chr c # rest) s k j"
    unfolding atoms_span_Cons_iff[of BeginA] by blast
  then have ik: "i = 0" "k = 0" by simp_all
  from k(2) obtain k' where "atom_span (Chr c) s k k'"
    unfolding atoms_span_Cons_iff[of "Chr c"] by blast
  with ik show ?thesis by auto
qed

lemma default_atoms_search:
  assumes "prefix (u ''Document checking completed. No errors found'') l"
  shows "re_search (atoms_span (BeginA # map (\<lambda>c. if c = 46 then Dot else Chr c)
             (u ''Document checking completed. No errors found'') @ [DotStar])) l"
proof -
  let ?w = "u ''Document checking completed. No errors found''"
  let ?n = "length ?w"
  have len: "?n \<le> length l" using assms by (rule prefix_length_le)
  have ds: "atoms_span [DotStar] l (0 + ?n) ?n"
    unfolding atoms_span_Cons_iff using len by auto
  have nl: "10 \<notin> set ?w" by (simp add: u_def)
  have "atoms_span (map (\<lambda>c. if c = 46 then Dot else Chr c) ?w @ [DotStar]) l 0 ?n"
    by (rule atoms_span_literal_prefix) (use assms ds nl in simp_all)
  then have "atoms_span (BeginA # map (\<lambda>c. if c = 46 then Dot else Chr c) ?w @ [DotStar]) l 0 ?n"
    unfolding atoms_span_Cons_iff[of BeginA] by auto
  with len show ?thesis
    unfolding re_search_iff by blast
qed

lemma default_pattern_not_at_other_start:
  assumes "fragment_compile (92 # u ''ADocument checking completed. No errors found.*'') = Some m"
    and "l = [] \<or> l ! 0 \<noteq> 68"
  shows "\<not> re_search m l"
proof
  assume s: "re_search m l"
  have "\<exists>rest. map (\<lambda>c. if c = 46 then Dot else Chr c)
            (u ''Document checking completed. No errors found'') @ [DotStar] = Chr 68 # rest"
    by (simp add: u_def)
  then obtain rest where m: "m = atoms_span (BeginA # Chr 68 # rest)"
    using assms(1) by (auto simp: fragment_compile_def parse_default)
  from s obtain i j where "atoms_span (BeginA # Chr 68 # rest) l i j"
    unfolding m re_search_iff by blast
  from atoms_span_BeginA_Chr[OF this] assms(2) show False by simp
qed

subsection \<open>The filtering step\<close>

text \<open>
  C9. The filtering step of \<open>validate\<close> (the loop over the literal ignore strings, then
  the loop over the ignore patterns) returns a list of non-empty lines unchanged when no
  line contains an active literal and every active pattern is a regular expression that
  matches in none of the lines.
\<close>

theorem filter_idempotent_on_clean_lines:
  assumes "\<forall>l\<in>set ls. l \<noteq> [] \<and> (\<forall>i\<in>set (ignore v). \<not> contains i l)"
    and "\<forall>p\<in>set (ignore_re v). \<exists>m. re_compile env p = Some m \<and> (\<forall>l\<in>set ls. \<not> re_search m l)"
  shows "filter_ignore_re env (ignore_re v) (filter_ignore (ignore v) ls) = Inr ls"
proof -
  have lit: "filter_ignore (ignore v) ls = ls"
    using assms(1) by (simp add: filter_ignore_eq filter_id_conv)
  have comp: "\<forall>p\<in>set (ignore_re v). re_compile env p \<noteq> None"
    using assms(2) by auto
  have "filter (\<lambda>l. \<forall>p\<in>set (ignore_re v). \<forall>m. re_compile env p = Some m \<longrightarrow> \<not> re_search m l) ls = ls"
    using assms(2) by (simp add: filter_id_conv) fastforce
  then show ?thesis
    using filter_ignore_re_eq[OF comp, of ls] lit by simp
qed

theorem filter_idempotent_on_clean_lines_witness:
  "filter_ignore_re (small_env (\<lambda>cmd. Inr [])) (ignore_re example_validator)
     (filter_ignore (ignore example_validator) [u ''bar: error'']) = Inr [u ''bar: error'']"
proof -
  have h1: "\<forall>l\<in>set [u ''bar: error'']. l \<noteq> [] \<and> (\<forall>i\<in>set (ignore example_validator). \<not> contains i l)"
    by (simp add: example_validator_def DEFAULT_IGNORE_def u_def)
  have "\<exists>m. fragment_compile (92 # u ''ADocument checking completed. No errors found.*'') = Some m"
    by (simp add: fragment_compile_def parse_default)
  then have h2: "\<forall>p\<in>set (ignore_re example_validator).
         \<exists>m. re_compile (small_env (\<lambda>cmd. Inr [])) p = Some m
             \<and> (\<forall>l\<in>set [u ''bar: error'']. \<not> re_search m l)"
    using default_pattern_not_at_other_start[of _ "u ''bar: error''"]
    by (auto simp: example_validator_def small_env_def DEFAULT_IGNORE_RE_def u_def)
  from filter_idempotent_on_clean_lines[OF h1 h2] show ?thesis .
qed

subsection \<open>Running the examples\<close>

lemma run_validator_small_env:
  "fst (run_validator (small_env (\<lambda>cmd. Inr out)) v files fmt) =
     (case utf8_decode out of
        None \<Rightarrow> Inl UnicodeDecodeError
      | Some s \<Rightarrow> if fmt \<noteq> Some (u ''json'') then Inr (normalize_string (sub_STDERR_IGNORE_RE s))
                  else Inr (sub_STDERR_IGNORE_RE s))"
  by (simp add: run_validator_def small_env_def u_def Let_def split: option.splits)

lemma small_env_compiles_default:
  "\<forall>p\<in>set DEFAULT_IGNORE_RE. re_compile (small_env launch) p \<noteq> None"
  by (simp add: small_env_def DEFAULT_IGNORE_RE_def fragment_compile_def parse_default)

lemma run_gnu_output:
  "fst (run_validator (small_env (\<lambda>cmd. Inr gnu_output)) v files None) = Inr gnu_text"
proof -
  have "utf8_decode gnu_output = Some gnu_text"
    by (simp add: gnu_output_def gnu_text_def utf8_bytes_def u_def)
  moreover have "sub_STDERR_IGNORE_RE gnu_text = gnu_text"
    by (simp add: gnu_text_def sub_STDERR_IGNORE_RE_def is_java_cruft_def u_def)
  moreover have "normalize_string gnu_text = gnu_text"
    by (simp add: gnu_text_def normalize_string_map u_def)
  ultimately show ?thesis by (simp add: run_validator_small_env)
qed

lemma run_clean_xml_output:
  "fst (run_validator (small_env (\<lambda>cmd. Inr clean_xml_output)) v files None) = Inr clean_xml_text"
proof -
  have "utf8_decode clean_xml_output = Some clean_xml_text"
    by (simp add: clean_xml_output_def clean_xml_text_def utf8_bytes_def u_def)
  moreover have "sub_STDERR_IGNORE_RE clean_xml_text = clean_xml_text"
    by (simp add: clean_xml_text_def sub_STDERR_IGNORE_RE_def is_java_cruft_def u_def)
  moreover have "normalize_string clean_xml_text = clean_xml_text"
    by (simp add: clean_xml_text_def normalize_string_map u_def)
  ultimately show ?thesis by (simp add: run_validator_small_env)
qed

lemma clean_xml_text_lines:
  "filter (\<lambda>l. l \<noteq> []) (splitlines clean_xml_text) = clean_xml_envelope"
  by (simp add: clean_xml_text_def clean_xml_envelope_def splitlines_def is_linebreak_def u_def)

lemma filter_xml_envelope: "filter_ignore DEFAULT_IGNORE_XML clean_xml_envelope = []"
  by (simp add: DEFAULT_IGNORE_XML_def clean_xml_envelope_def u_def)


lemma small_env_default_matcher:
  "re_compile (small_env launch) (92 # u ''ADocument checking completed. No errors found.*'') =
     Some (atoms_span (BeginA # map (\<lambda>c. if c = 46 then Dot else Chr c)
             (u ''Document checking completed. No errors found'') @ [DotStar]))"
  by (simp add: small_env_def fragment_compile_def parse_default)

lemma gnu_text_lines:
  "splitlines gnu_text =
     [u ''error: bad'', u ''a foo b'', [], u ''Document checking completed. No errors found.'']"
  by (simp add: gnu_text_def splitlines_def is_linebreak_def u_def)

lemma default_misses_error_line: "\<not> re_search (atoms_span (BeginA # map (\<lambda>c. if c = 46 then Dot else Chr c)
             (u ''Document checking completed. No errors found'') @ [DotStar])) (u ''error: bad'')"
    apply (rule default_pattern_not_at_other_start[of _ "u ''error: bad''"])
     apply (simp add: fragment_compile_def parse_default)
    apply (simp add: u_def)
  done

lemma default_finds_all_clear_line: "re_search (atoms_span (BeginA # map (\<lambda>c. if c = 46 then Dot else Chr c)
             (u ''Document checking completed. No errors found'') @ [DotStar])) (u ''Document checking completed. No errors found.'')"
    by (rule default_atoms_search) (simp add: u_def)
lemma error_line_has_no_literal: "\<forall>i\<in>set (ignore example_validator). \<not> contains i (u ''error: bad'')"
    by (simp add: example_validator_def DEFAULT_IGNORE_def u_def)
lemma foo_line_has_literal: "contains (u ''foo'') (u ''a foo b'')"
    by (simp add: u_def)

lemma example_ignore_re: "ignore_re example_validator = [92 # u ''ADocument checking completed. No errors found.*'']"
  by (simp add: example_validator_def DEFAULT_IGNORE_RE_def)

lemma example_ignore: "ignore example_validator = [u ''foo'', u ''{\"messages\":[]}'']"
  by (simp add: example_validator_def DEFAULT_IGNORE_def)


subsection \<open>Counting the surviving lines\<close>

text \<open>
  C5. When the engine-invocation step returns the text \<open>txt\<close> and every configured
  pattern is a regular expression (it compiles), \<open>validate\<close> returns the number of lines
  of \<open>txt\<close> (as \<open>splitlines\<close> cuts them) that are not empty, contain none of the active
  literal ignore strings as a substring (\<open>l = ps @ i @ ss\<close>), and have no span in which an
  ignore pattern matches (search, not a match of the whole line). The active literals are
  those of the validator after the override for the \<open>xml\<close> format.
\<close>

theorem validate_counts_surviving_lines:
  assumes "fst (run_validator env v files None) = Inr txt"
    and "\<forall>p\<in>set (ignore_re v). re_compile env p \<noteq> None"
  shows "fst (validate env v files) =
     Inr (length (filter
       (\<lambda>l. l \<noteq> []
          \<and> (\<forall>i\<in>set (ignore (override_ignore v (filter (\<lambda>l. l \<noteq> []) (splitlines txt)))).
                \<not> (\<exists>ps ss. l = ps @ i @ ss))
          \<and> (\<forall>p\<in>set (ignore_re v). \<forall>m. re_compile env p = Some m \<longrightarrow>
                \<not> (\<exists>i j. i \<le> j \<and> j \<le> length l \<and> m l i j)))
       (splitlines txt)))"
proof -
  let ?e = "filter (\<lambda>l. l \<noteq> []) (splitlines txt)"
  let ?v = "override_ignore v ?e"
  have re: "ignore_re ?v = ignore_re v"
    by (simp add: override_ignore_def)
  have "filter_ignore_re env (ignore_re ?v) (filter_ignore (ignore ?v) ?e) =
        Inr (filter (\<lambda>l. \<forall>p\<in>set (ignore_re v). \<forall>m. re_compile env p = Some m \<longrightarrow> \<not> re_search m l)
              (filter (\<lambda>l. \<forall>i\<in>set (ignore ?v). \<not> contains i l) ?e))"
    using filter_ignore_re_eq[OF assms(2)] by (simp add: re filter_ignore_eq)
  then have "fst (validate env v files) =
        Inr (length (filter (\<lambda>l. \<forall>p\<in>set (ignore_re v). \<forall>m. re_compile env p = Some m \<longrightarrow> \<not> re_search m l)
              (filter (\<lambda>l. \<forall>i\<in>set (ignore ?v). \<not> contains i l) ?e)))"
    using assms(1) by (simp add: validate_def surviving_lines_def Let_def)
  also have "\<dots> = Inr (length (filter
       (\<lambda>l. l \<noteq> []
          \<and> (\<forall>i\<in>set (ignore ?v). \<not> (\<exists>ps ss. l = ps @ i @ ss))
          \<and> (\<forall>p\<in>set (ignore_re v). \<forall>m. re_compile env p = Some m \<longrightarrow>
                \<not> (\<exists>i j. i \<le> j \<and> j \<le> length l \<and> m l i j)))
       (splitlines txt)))"
    by (simp add: contains_iff re_search_iff conj_commute conj_left_commute cong: filter_cong)
  finally show ?thesis .
qed


theorem validate_counts_surviving_lines_witness:
  "fst (validate (small_env (\<lambda>cmd. Inr gnu_output)) example_validator [u ''a.html'']) = Inr 1"
proof -
  let ?env = "small_env (\<lambda>cmd. Inr gnu_output)"
  define P where "P = (\<lambda>l. l \<noteq> []
          \<and> (\<forall>i\<in>set (ignore example_validator). \<not> contains i l)
          \<and> (\<forall>p\<in>set (ignore_re example_validator). \<forall>m. re_compile ?env p = Some m \<longrightarrow>
                \<not> re_search m l))"
  have c: "\<forall>p\<in>set (ignore_re example_validator). re_compile ?env p \<noteq> None"
    using small_env_compiles_default by (simp add: example_validator_def)
  have ov: "override_ignore example_validator ls = example_validator" for ls
    by (simp add: override_ignore_def example_validator_def)
  have p1: "P (u ''error: bad'')"
    using default_misses_error_line error_line_has_no_literal by (simp add: P_def example_ignore_re small_env_default_matcher) (simp add: u_def)
  have p2: "\<not> P (u ''a foo b'')"
    using foo_line_has_literal by (simp add: P_def example_ignore)
  have p3: "\<not> P (u ''Document checking completed. No errors found.'')"
    using default_finds_all_clear_line by (simp add: P_def example_ignore_re small_env_default_matcher)
  have p0: "\<not> P []"
    by (simp add: P_def)
  have "fst (validate ?env example_validator [u ''a.html'']) = Inr (length (filter P (splitlines gnu_text)))"
    using validate_counts_surviving_lines[OF run_gnu_output c]
    by (simp only: P_def ov contains_iff re_search_iff)
  also have "\<dots> = Inr 1"
    by (simp only: gnu_text_lines filter.simps p0 p1 p2 p3 if_True if_False) simp
  finally show ?thesis .
qed

text \<open>
  C3. With the format \<open>xml\<close>, when the text of the engine has, after the empty lines are
  dropped, exactly the three lines of the clean envelope, \<open>validate\<close> returns 0 (every
  configured pattern being a regular expression).
\<close>

theorem xml_clean_envelope_counts_zero:
  assumes "format v = Some (u ''xml'')"
    and "fst (run_validator env v files None) = Inr txt"
    and "filter (\<lambda>l. l \<noteq> []) (splitlines txt) = clean_xml_envelope"
    and "\<forall>p\<in>set (ignore_re v). re_compile env p \<noteq> None"
  shows "fst (validate env v files) = Inr 0"
proof -
  have len: "length clean_xml_envelope < 4"
    by (simp add: clean_xml_envelope_def)
  then have ov: "override_ignore v clean_xml_envelope = v\<lparr>ignore := DEFAULT_IGNORE_XML\<rparr>"
    using assms(1) by (simp add: override_ignore_def)
  have "filter_ignore_re env (ignore_re v) [] = Inr []"
    using filter_ignore_re_eq[OF assms(4), of "[]"] by simp
  then have "fst (surviving_lines env v txt) = Inr []"
    by (simp add: surviving_lines_def Let_def ov assms(3) filter_xml_envelope)
  then show ?thesis
    using assms(2) by (auto simp: validate_def split: prod.splits sum.splits)
qed

theorem xml_clean_envelope_counts_zero_witness:
  "fst (validate (small_env (\<lambda>cmd. Inr clean_xml_output)) xml_validator [u ''a.html'']) = Inr 0"
proof -
  have f: "format xml_validator = Some (u ''xml'')"
    by (simp add: xml_validator_def)
  have c: "\<forall>p\<in>set (ignore_re xml_validator).
             re_compile (small_env (\<lambda>cmd. Inr clean_xml_output)) p \<noteq> None"
    using small_env_compiles_default by (simp add: xml_validator_def example_validator_def)
  show ?thesis
    by (rule xml_clean_envelope_counts_zero[OF f run_clean_xml_output clean_xml_text_lines c])
qed

subsection \<open>Construction\<close>

lemma contains_map_iff:
  "contains (map f i) (map f l) \<longleftrightarrow> (\<exists>s. contains s l \<and> map f s = map f i)"
proof
  assume "contains (map f i) (map f l)"
  then obtain ps ss where "map f l = ps @ map f i @ ss"
    unfolding contains_iff by blast
  then have "\<exists>us vs. l = us @ vs \<and> ps = map f us \<and> map f i @ ss = map f vs"
    by (simp add: map_eq_append_conv)
  then obtain l1 r where l: "l = l1 @ r" and "map f i @ ss = map f r"
    by blast
  then have "\<exists>us vs. r = us @ vs \<and> map f i = map f us \<and> ss = map f vs"
    by (simp add: append_eq_map_conv)
  then obtain s l2 where r: "r = s @ l2" and s: "map f s = map f i"
    by metis
  from l r have "contains s l" unfolding contains_iff by blast
  with s show "\<exists>s. contains s l \<and> map f s = map f i" by blast
next
  assume "\<exists>s. contains s l \<and> map f s = map f i"
  then obtain s ps ss where "l = ps @ s @ ss" and s: "map f s = map f i"
    unfolding contains_iff by blast
  then have "map f l = map f ps @ map f i @ map f ss" by simp
  then show "contains (map f i) (map f l)"
    unfolding contains_iff by blast
qed

lemma normalize_string_no_fancy: "8220 \<notin> set (normalize_string s) \<and> 8221 \<notin> set (normalize_string s)"
  by (auto simp: normalize_string_map)

lemma init_example:
  "fst (Validator_init (small_env launch) foo_heap (Some 0) None False True None None None)
     = Inr example_validator"
  by (simp add: Validator_init_def bind_arg_def extend_def deref_def foo_heap_def small_env_def
      example_validator_def Let_def normalize_string_map DEFAULT_IGNORE_def
      DEFAULT_IGNORE_RE_def u_def)

text \<open>
  The two lists that \<open>__init__\<close> stores, for every heap and every pair of arguments. When
  the arguments are one non-empty list object, both stored lists are that list followed
  by the default patterns and then the default literals; in every other case the
  literal list is the caller's literals followed by \<open>DEFAULT_IGNORE\<close> and the pattern list
  the caller's patterns followed by \<open>DEFAULT_IGNORE_RE\<close>. Every entry is normalised.
\<close>

lemma init_ignore_lists:
  assumes "fst (Validator_init env h ignore_arg ignore_re_arg eo dl fmt ss va) = Inr v"
  shows "if \<exists>a. ignore_arg = Some a \<and> ignore_re_arg = Some a \<and> h a \<noteq> []
         then ignore v = map normalize_string
                (h (the ignore_arg) @ DEFAULT_IGNORE_RE @ DEFAULT_IGNORE)
            \<and> ignore_re v = map normalize_string
                (h (the ignore_arg) @ DEFAULT_IGNORE_RE @ DEFAULT_IGNORE)
         else ignore v = map normalize_string
                ((case ignore_arg of None \<Rightarrow> [] | Some a \<Rightarrow> h a) @ DEFAULT_IGNORE)
            \<and> ignore_re v = map normalize_string
                ((case ignore_re_arg of None \<Rightarrow> [] | Some a \<Rightarrow> h a) @ DEFAULT_IGNORE_RE)"
  using assms
  by (auto simp: Validator_init_def bind_arg_def extend_def deref_def Let_def
      split: if_splits sum.splits option.splits)

lemma init_caller_lists:
  "snd (Validator_init env h ignore_arg ignore_re_arg eo dl fmt ss va) =
     (let h1 = (case ignore_re_arg of
                  None \<Rightarrow> h
                | Some a \<Rightarrow> if h a = [] then h else h(a := h a @ DEFAULT_IGNORE_RE))
      in case ignore_arg of
           None \<Rightarrow> h1
         | Some a \<Rightarrow> if h a = [] then h1 else h1(a := h1 a @ DEFAULT_IGNORE))"
  by (auto simp: Validator_init_def bind_arg_def extend_def Let_def split: option.splits)

lemma normalized_rule_matches:
  "contains (normalize_string i) (normalize_string l)
     \<longleftrightarrow> (\<exists>s. contains s l \<and> normalize_string s = normalize_string i)"
  unfolding normalize_string_map by (simp add: contains_map_iff)

text \<open>
  C7. \<open>__init__\<close> extends with \<open>+=\<close> the list objects it was given. When the caller
  passes one list object (here \<open>['foo']\<close>) as \<open>ignore\<close> and as \<open>ignore_re\<close>, the default
  pattern and the default literal are both appended to that one object: the literal
  list and the pattern list of the validator are both \<open>foo\<close>, the default pattern, the
  default literal, and not the caller's entries followed by the defaults of their own
  kind. The caller's list holds the same three entries afterwards.
\<close>

theorem init_extends_one_shared_list:
  "\<exists>v. fst (Validator_init (small_env (\<lambda>cmd. Inr [])) foo_heap (Some 0) (Some 0)
              False True None None None) = Inr v
       \<and> ignore v = [u ''foo'', 92 # u ''ADocument checking completed. No errors found.*'',
                      u ''{\"messages\":[]}'']
       \<and> ignore_re v = [u ''foo'', 92 # u ''ADocument checking completed. No errors found.*'',
                         u ''{\"messages\":[]}'']
       \<and> snd (Validator_init (small_env (\<lambda>cmd. Inr [])) foo_heap (Some 0) (Some 0)
              False True None None None) 0
           = [u ''foo'', 92 # u ''ADocument checking completed. No errors found.*'',
              u ''{\"messages\":[]}'']"
  by (simp add: Validator_init_def bind_arg_def extend_def deref_def foo_heap_def small_env_def
      Let_def normalize_string_map DEFAULT_IGNORE_def DEFAULT_IGNORE_RE_def u_def)

subsection \<open>The override for the \<open>xml\<close> format\<close>

lemma run_findings_xml_output:
  "fst (run_validator (small_env (\<lambda>cmd. Inr findings_xml_output)) v files None)
     = Inr (concat (map (\<lambda>l. l @ [10]) findings_xml_lines))"
proof -
  let ?t = "concat (map (\<lambda>l. l @ [10]) findings_xml_lines)"
  have "utf8_decode findings_xml_output = Some ?t"
    by (simp add: findings_xml_output_def findings_xml_lines_def utf8_bytes_def u_def)
  moreover have "sub_STDERR_IGNORE_RE ?t = ?t"
    by (simp add: findings_xml_lines_def sub_STDERR_IGNORE_RE_def is_java_cruft_def u_def)
  moreover have "normalize_string ?t = ?t"
    by (simp add: findings_xml_lines_def normalize_string_map u_def)
  ultimately show ?thesis by (simp add: run_validator_small_env)
qed

lemma findings_xml_split:
  "filter (\<lambda>l. l \<noteq> []) (splitlines (concat (map (\<lambda>l. l @ [10]) findings_xml_lines)))
     = findings_xml_lines"
  by (simp add: findings_xml_lines_def splitlines_def is_linebreak_def u_def)

lemma filter_default_re_small_env:
  assumes "\<forall>l\<in>set e. l = [] \<or> l ! 0 \<noteq> 68"
  shows "filter_ignore_re (small_env launch) DEFAULT_IGNORE_RE e = Inr e"
proof -
  have "\<forall>l\<in>set e. \<not> re_search (atoms_span (BeginA # map (\<lambda>c. if c = 46 then Dot else Chr c)
             (u ''Document checking completed. No errors found'') @ [DotStar])) l"
    using assms default_pattern_not_at_other_start
    by (simp add: fragment_compile_def parse_default)
  then show ?thesis
    by (simp add: DEFAULT_IGNORE_RE_def small_env_default_matcher filter_id_conv)
qed

text \<open>
  C1. The override is an assignment to \<open>self.ignore\<close>: it is still there when the call
  has returned. The example validator has the literals \<open>foo\<close> and the default; after one
  call on a clean \<open>xml\<close> result its literal list is \<open>DEFAULT_IGNORE_XML\<close>, and a later call
  on a result with two findings counts 2 lines where a fresh validator counts 4 (the
  envelope lines are dropped although there are findings, and the line with \<open>foo\<close> is
  kept).
\<close>

theorem xml_override_outlives_the_call:
  "ignore xml_validator = [u ''foo'', u ''{\"messages\":[]}'']
   \<and> ignore (snd (validate (small_env (\<lambda>cmd. Inr clean_xml_output)) xml_validator [u ''a.html'']))
       = DEFAULT_IGNORE_XML
   \<and> fst (validate (small_env (\<lambda>cmd. Inr findings_xml_output)) xml_validator [u ''b.html''])
       = Inr 4
   \<and> fst (validate (small_env (\<lambda>cmd. Inr findings_xml_output))
            (snd (validate (small_env (\<lambda>cmd. Inr clean_xml_output)) xml_validator [u ''a.html'']))
            [u ''b.html''])
       = Inr 2"
proof -
  let ?E1 = "small_env (\<lambda>cmd. Inr clean_xml_output)"
  let ?E2 = "small_env (\<lambda>cmd. Inr findings_xml_output)"
  let ?v1 = "xml_validator\<lparr>ignore := DEFAULT_IGNORE_XML\<rparr>"
  have i0: "ignore xml_validator = [u ''foo'', u ''{\"messages\":[]}'']"
    by (simp add: xml_validator_def example_validator_def DEFAULT_IGNORE_def)
  have re: "ignore_re xml_validator = DEFAULT_IGNORE_RE"
    by (simp add: xml_validator_def example_validator_def)
  have fmt: "format xml_validator = Some (u ''xml'')"
    by (simp add: xml_validator_def)
  have ov1: "override_ignore xml_validator clean_xml_envelope = ?v1"
    by (simp add: override_ignore_def fmt clean_xml_envelope_def)
  have "filter_ignore_re ?E1 DEFAULT_IGNORE_RE [] = Inr []"
    by (rule filter_default_re_small_env) simp
  then have s1: "surviving_lines ?E1 xml_validator clean_xml_text = (Inr [], ?v1)"
    by (simp add: surviving_lines_def Let_def clean_xml_text_lines ov1 filter_xml_envelope re)
  have v1: "snd (validate ?E1 xml_validator [u ''a.html'']) = ?v1"
    by (simp add: validate_def run_clean_xml_output s1)
  have ov2: "override_ignore v findings_xml_lines = v" for v
    by (simp add: override_ignore_def findings_xml_lines_def)
  have f2: "filter_ignore [u ''foo'', u ''{\"messages\":[]}''] findings_xml_lines =
      [u ''<?xml version='1.0' encoding='utf-8'?>'',
       u ''<messages xmlns=\"http://n.validator.nu/messages/\">'',
       u ''<error><message>bar</message></error>'',
       u ''</messages>'']"
    by (simp add: findings_xml_lines_def u_def)
  have r2: "filter_ignore_re ?E2 DEFAULT_IGNORE_RE
      [u ''<?xml version='1.0' encoding='utf-8'?>'',
       u ''<messages xmlns=\"http://n.validator.nu/messages/\">'',
       u ''<error><message>bar</message></error>'',
       u ''</messages>''] = Inr
      [u ''<?xml version='1.0' encoding='utf-8'?>'',
       u ''<messages xmlns=\"http://n.validator.nu/messages/\">'',
       u ''<error><message>bar</message></error>'',
       u ''</messages>'']"
    by (rule filter_default_re_small_env) (simp add: u_def)
  have "fst (surviving_lines ?E2 xml_validator (concat (map (\<lambda>l. l @ [10]) findings_xml_lines)))
      = Inr [u ''<?xml version='1.0' encoding='utf-8'?>'',
       u ''<messages xmlns=\"http://n.validator.nu/messages/\">'',
       u ''<error><message>bar</message></error>'',
       u ''</messages>'']"
    by (simp only: surviving_lines_def Let_def findings_xml_split ov2 i0 re f2 r2 fst_conv)
  then have c2: "fst (validate ?E2 xml_validator [u ''b.html'']) = Inr 4"
    by (auto simp: validate_def run_findings_xml_output split: prod.splits sum.splits)
  have f3: "filter_ignore DEFAULT_IGNORE_XML findings_xml_lines =
      [u ''<error><message>foo</message></error>'', u ''<error><message>bar</message></error>'']"
    by (simp add: findings_xml_lines_def DEFAULT_IGNORE_XML_def u_def)
  have r3: "filter_ignore_re ?E2 DEFAULT_IGNORE_RE
      [u ''<error><message>foo</message></error>'', u ''<error><message>bar</message></error>'']
      = Inr [u ''<error><message>foo</message></error>'', u ''<error><message>bar</message></error>'']"
    by (rule filter_default_re_small_env) (simp add: u_def)
  have i1: "ignore ?v1 = DEFAULT_IGNORE_XML" and re1: "ignore_re ?v1 = DEFAULT_IGNORE_RE"
    by (simp_all add: re)
  have "fst (surviving_lines ?E2 ?v1 (concat (map (\<lambda>l. l @ [10]) findings_xml_lines)))
      = Inr [u ''<error><message>foo</message></error>'', u ''<error><message>bar</message></error>'']"
    by (simp only: surviving_lines_def Let_def findings_xml_split ov2 i1 re1 f3 r3 fst_conv)
  then have c3: "fst (validate ?E2 ?v1 [u ''b.html'']) = Inr 2"
    by (auto simp: validate_def run_findings_xml_output split: prod.splits sum.splits)
  from i0 v1 c2 c3 show ?thesis by simp
qed

subsection \<open>Quote normalisation of the engine text\<close>

lemma decode_json_output: "utf8_decode json_output = Some json_text"
  by (simp add: json_output_def json_text_def utf8_bytes_def u_def is_cont_def)

lemma strip_json_text: "sub_STDERR_IGNORE_RE json_text = json_text"
  by (simp add: json_text_def sub_STDERR_IGNORE_RE_def is_java_cruft_def u_def)

lemma normalize_json_text: "normalize_string json_text = json_text_normalized"
  by (simp add: json_text_def json_text_normalized_def normalize_string_map u_def)

lemma run_validator_normalizes_by_argument:
  assumes "fst (run_validator env v files format_arg) = Inr txt"
  shows "\<exists>raw s. popen_communicate env (hd (snd (run_validator env v files format_arg))) = Inr raw
           \<and> utf8_decode raw = Some s
           \<and> txt = (if format_arg \<noteq> Some (u ''json'')
                    then normalize_string (sub_STDERR_IGNORE_RE s)
                    else sub_STDERR_IGNORE_RE s)"
  using assms
  by (auto simp: run_validator_def Let_def split: sum.splits if_splits option.splits exn.splits)

text \<open>
  C2. The test before the normalisation reads the argument \<open>format\<close>, which \<open>validate\<close>
  leaves at \<open>None\<close>. With the configured format \<open>json\<close> the engine is started with
  \<open>--format json\<close> and the text that \<open>validate\<close> receives is normalised all the same: the
  typographic quotes of the message have become ASCII quotes. With the argument
  \<open>'json'\<close>, as \<open>get_messages\<close> passes it, the same output is returned as it is.
\<close>

theorem configured_json_is_normalized:
  "snd (run_validator (small_env (\<lambda>cmd. Inr json_output)) json_validator [u ''a.html''] None)
     = [[u ''java'', u ''-jar'', u ''/lib/vnujar/vnu.jar'', u ''--format'', u ''json'', u ''a.html'']]
   \<and> fst (run_validator (small_env (\<lambda>cmd. Inr json_output)) json_validator [u ''a.html''] None)
     = Inr json_text_normalized
   \<and> fst (run_validator (small_env (\<lambda>cmd. Inr json_output)) json_validator [u ''a.html'']
          (Some (u ''json'')))
     = Inr json_text
   \<and> json_text_normalized \<noteq> json_text"
proof -
  have cmd: "snd (run_validator (small_env (\<lambda>cmd. Inr json_output)) json_validator [u ''a.html''] None)
     = [[u ''java'', u ''-jar'', u ''/lib/vnujar/vnu.jar'', u ''--format'', u ''json'', u ''a.html'']]"
    by (simp add: run_validator_def small_env_def engine_cmd_def java_options_def vnu_options_def
        json_validator_def example_validator_def Let_def)
       (simp add: u_def)
  have a: "fst (run_validator (small_env (\<lambda>cmd. Inr json_output)) json_validator [u ''a.html''] None)
     = Inr json_text_normalized"
    by (simp add: run_validator_small_env decode_json_output strip_json_text normalize_json_text)
  have b: "fst (run_validator (small_env (\<lambda>cmd. Inr json_output)) json_validator [u ''a.html'']
          (Some (u ''json''))) = Inr json_text"
    by (simp add: run_validator_small_env decode_json_output strip_json_text)
  have c: "json_text_normalized \<noteq> json_text"
    by (simp add: json_text_def json_text_normalized_def)
  from cmd a b c show ?thesis by blast
qed

subsection \<open>Failures of the launch\<close>

text \<open>
  What the handler does, once the file paths are ready (no conversion outside Cygwin, or
  a conversion that succeeded). Where \<open>os.errno\<close> exists, an \<open>OSError\<close> with the error number
  \<open>os.errno.ENOENT\<close> becomes \<open>JavaNotFoundException\<close> and every other exception of the launch
  is raised as it came (\<open>CalledProcessError\<close>, which \<open>Popen\<close> and \<open>communicate\<close> never
  raise, is set apart: its handler raises a string). Where \<open>os.errno\<close> does not exist,
  every \<open>OSError\<close> of the launch ends in \<open>AttributeError\<close>. In both cases the engine command
  was spawned exactly once.
\<close>

lemma launch_failure_with_os_errno:
  assumes "(if platform env = u ''cygwin'' then convert_all env files else Inr files) = Inr files'"
    and "popen_communicate env (engine_cmd v format_arg files') = Inl e"
    and "\<forall>out. e \<noteq> CalledProcessError out"
    and "os_errno_ENOENT env = Some k"
  shows "run_validator env v files format_arg =
           (Inl (if e = OSError k then JavaNotFoundException else e),
            [engine_cmd v format_arg files'])"
  using assms(2,3,4) unfolding run_validator_def assms(1)
  by (cases e) (simp_all add: Let_def)

lemma launch_failure_without_os_errno:
  assumes "(if platform env = u ''cygwin'' then convert_all env files else Inr files) = Inr files'"
    and "popen_communicate env (engine_cmd v format_arg files') = Inl (OSError n)"
    and "os_errno_ENOENT env = None"
  shows "run_validator env v files format_arg =
           (Inl AttributeError, [engine_cmd v format_arg files'])"
  using assms(2,3) unfolding run_validator_def assms(1)
  by (simp add: Let_def)

lemma JavaNotFoundException_message:
  "JavaNotFoundException_str =
     u ''Missing Java Runtime Environment on this system. The command \"java\" must be available.''"
  by (simp add: JavaNotFoundException_str_def u_def)

text \<open>
  C4. The module imports \<open>os\<close> only and asks for \<open>os.errno.ENOENT\<close>. On an interpreter
  without \<open>os.errno\<close> (Python 3.7 and later) a launch that fails because \<open>java\<close> is absent
  (\<open>OSError\<close> with \<open>ENOENT\<close>) ends in \<open>AttributeError\<close>, not in \<open>JavaNotFoundException\<close>, and
  a launch that fails with another error number (13, permission denied) ends in
  \<open>AttributeError\<close> too, not in the error as it came. With \<open>os.errno\<close> present the same
  two launches give \<open>JavaNotFoundException\<close> and the unchanged error.
\<close>

theorem launch_failure_without_os_errno_is_attribute_error:
  "run_validator (small_env (\<lambda>cmd. Inl (OSError ENOENT))) example_validator [u ''a.html''] None =
     (Inl AttributeError, [engine_cmd example_validator None [u ''a.html'']])
   \<and> run_validator (small_env (\<lambda>cmd. Inl (OSError 13))) example_validator [u ''a.html''] None =
     (Inl AttributeError, [engine_cmd example_validator None [u ''a.html'']])
   \<and> run_validator ((small_env (\<lambda>cmd. Inl (OSError ENOENT)))\<lparr>os_errno_ENOENT := Some ENOENT\<rparr>)
        example_validator [u ''a.html''] None =
     (Inl JavaNotFoundException, [engine_cmd example_validator None [u ''a.html'']])
   \<and> run_validator ((small_env (\<lambda>cmd. Inl (OSError 13)))\<lparr>os_errno_ENOENT := Some ENOENT\<rparr>)
        example_validator [u ''a.html''] None =
     (Inl (OSError 13), [engine_cmd example_validator None [u ''a.html'']])"
proof -
  have p: "(if platform (small_env l) = u ''cygwin'' then convert_all (small_env l) [u ''a.html'']
            else Inr [u ''a.html'']) = Inr [u ''a.html'']" for l
    by (simp add: small_env_def u_def)
  have q: "(if platform ((small_env l)\<lparr>os_errno_ENOENT := Some ENOENT\<rparr>) = u ''cygwin''
            then convert_all ((small_env l)\<lparr>os_errno_ENOENT := Some ENOENT\<rparr>) [u ''a.html'']
            else Inr [u ''a.html'']) = Inr [u ''a.html'']" for l
    by (simp add: small_env_def u_def)
  have a: "run_validator (small_env (\<lambda>cmd. Inl (OSError ENOENT))) example_validator [u ''a.html''] None =
     (Inl AttributeError, [engine_cmd example_validator None [u ''a.html'']])"
    by (rule launch_failure_without_os_errno[OF p]) (simp_all add: small_env_def)
  have b: "run_validator (small_env (\<lambda>cmd. Inl (OSError 13))) example_validator [u ''a.html''] None =
     (Inl AttributeError, [engine_cmd example_validator None [u ''a.html'']])"
    by (rule launch_failure_without_os_errno[OF p]) (simp_all add: small_env_def)
  have c: "run_validator ((small_env (\<lambda>cmd. Inl (OSError ENOENT)))\<lparr>os_errno_ENOENT := Some ENOENT\<rparr>)
        example_validator [u ''a.html''] None =
     (Inl JavaNotFoundException, [engine_cmd example_validator None [u ''a.html'']])"
    using launch_failure_with_os_errno[OF q, of "\<lambda>cmd. Inl (OSError ENOENT)" example_validator
        None "OSError ENOENT" ENOENT]
    by (simp add: small_env_def)
  have d: "run_validator ((small_env (\<lambda>cmd. Inl (OSError 13)))\<lparr>os_errno_ENOENT := Some ENOENT\<rparr>)
        example_validator [u ''a.html''] None =
     (Inl (OSError 13), [engine_cmd example_validator None [u ''a.html'']])"
    using launch_failure_with_os_errno[OF q, of "\<lambda>cmd. Inl (OSError 13)" example_validator
        None "OSError 13" ENOENT]
    by (simp add: small_env_def ENOENT_def)
  from a b c d show ?thesis by blast
qed

subsection \<open>Structured messages\<close>







subsection \<open>The built-in pattern\<close>

lemma validate_keeps_ignore_re: "ignore_re (snd (validate env v files)) = ignore_re v"
  by (auto simp: validate_def surviving_lines_def override_ignore_def Let_def
      split: sum.splits prod.splits)

lemma validate_calls_keep_ignore_re: "ignore_re (validate_calls v calls) = ignore_re v"
  by (induction v calls rule: validate_calls.induct) (simp_all add: validate_keeps_ignore_re)

lemma validate_keeps_non_xml:
  "format v \<noteq> Some (u ''xml'') \<Longrightarrow> snd (validate env v files) = v"
  by (auto simp: validate_def surviving_lines_def override_ignore_def Let_def
      split: sum.splits prod.splits)

lemma normalize_default_pattern:
  "normalize_string (92 # u ''ADocument checking completed. No errors found.*'')
     = 92 # u ''ADocument checking completed. No errors found.*''"
  by (simp add: normalize_string_map u_def)

lemma init_has_default_pattern:
  assumes "fst (Validator_init env h ignore_arg ignore_re_arg eo dl fmt ss va) = Inr v"
  shows "(92 # u ''ADocument checking completed. No errors found.*'') \<in> set (ignore_re v)"
proof -
  have "normalize_string (92 # u ''ADocument checking completed. No errors found.*'')
          \<in> set (ignore_re v)"
    using init_ignore_lists[OF assms]
    by (auto simp: DEFAULT_IGNORE_RE_def split: if_splits)
  then show ?thesis by (simp add: normalize_default_pattern)
qed

lemma filter_ignore_re_result:
  assumes "filter_ignore_re env ps e = Inr r"
  shows "(\<forall>p\<in>set ps. re_compile env p \<noteq> None)
       \<and> r = filter (\<lambda>l. \<forall>p\<in>set ps. \<forall>m. re_compile env p = Some m \<longrightarrow> \<not> re_search m l) e"
proof -
  have c: "\<forall>p\<in>set ps. re_compile env p \<noteq> None"
  proof (rule ccontr)
    assume "\<not> (\<forall>p\<in>set ps. re_compile env p \<noteq> None)"
    then have "\<exists>p\<in>set ps. re_compile env p = None" by simp
    from filter_ignore_re_error[OF this] assms show False by simp
  qed
  from filter_ignore_re_eq[OF c, of e] assms c show ?thesis by simp
qed

lemma fragment_default_search:
  assumes "re_agrees_on_fragment env"
    and "re_compile env (92 # u ''ADocument checking completed. No errors found.*'') = Some m"
    and "prefix (u ''Document checking completed. No errors found'') l"
  shows "re_search m l"
proof -
  from assms(1) parse_default obtain m' where
    "re_compile env (92 # u ''ADocument checking completed. No errors found.*'') = Some m'"
    "\<forall>l. re_search m' l = re_search (atoms_span (BeginA # map (\<lambda>c. if c = 46 then Dot else Chr c)
             (u ''Document checking completed. No errors found'') @ [DotStar])) l"
    unfolding re_agrees_on_fragment_def by blast
  with assms(2) default_atoms_search[OF assms(3)] show ?thesis by simp
qed

lemma length_filter_mono:
  assumes "\<And>x. x \<in> set xs \<Longrightarrow> P x \<Longrightarrow> Q x"
  shows "length (filter P xs) \<le> length (filter Q xs)"
  using assms by (induction xs) auto

lemma small_env_agrees: "re_agrees_on_fragment (small_env launch)"
  by (simp add: re_agrees_on_fragment_def small_env_def fragment_compile_def)

lemma filter_default_re_small_env_eq:
  "filter_ignore_re (small_env launch) DEFAULT_IGNORE_RE e =
     Inr (filter (\<lambda>l. \<not> re_search (atoms_span (BeginA # map (\<lambda>c. if c = 46 then Dot else Chr c)
             (u ''Document checking completed. No errors found'') @ [DotStar])) l) e)"
  by (simp add: DEFAULT_IGNORE_RE_def small_env_default_matcher)

lemma validate_gnu_example:
  "fst (validate (small_env (\<lambda>cmd. Inr gnu_output)) example_validator files) = Inr 1"
proof -
  let ?E = "small_env (\<lambda>cmd. Inr gnu_output)"
  have ov: "override_ignore example_validator ls = example_validator" for ls
    by (simp add: override_ignore_def example_validator_def)
  have ne: "filter (\<lambda>l. l \<noteq> []) (splitlines gnu_text) =
      [u ''error: bad'', u ''a foo b'', u ''Document checking completed. No errors found.'']"
    by (simp add: gnu_text_lines) (simp add: u_def)
  have lit: "filter_ignore (ignore example_validator)
      [u ''error: bad'', u ''a foo b'', u ''Document checking completed. No errors found.'']
      = [u ''error: bad'', u ''Document checking completed. No errors found.'']"
    by (simp add: example_ignore u_def)
  have re: "filter_ignore_re ?E (ignore_re example_validator)
      [u ''error: bad'', u ''Document checking completed. No errors found.''] = Inr [u ''error: bad'']"
    using default_misses_error_line default_finds_all_clear_line
    by (simp add: example_validator_def filter_default_re_small_env_eq)
  have "fst (surviving_lines ?E example_validator gnu_text) = Inr [u ''error: bad'']"
    by (simp only: surviving_lines_def Let_def ne ov lit re fst_conv)
  then show ?thesis
    by (auto simp: validate_def run_gnu_output split: prod.splits sum.splits)
qed

text \<open>
  C10. Whatever the arguments of the constructor and whatever calls of \<open>validate\<close> came
  before, the pattern list still holds the built-in pattern, and a call that returns a
  count returns at most the number of non-empty lines of the engine text that do not
  begin with \<open>Document checking completed. No errors found\<close>: no such line is counted.
  The regular-expression engine is assumed to agree with the fragment, to which the
  built-in pattern belongs.
\<close>

theorem all_clear_line_never_counted:
  assumes "fst (Validator_init env0 h ignore_arg ignore_re_arg eo dl fmt ss va) = Inr v0"
    and "re_agrees_on_fragment env"
    and "fst (validate env (validate_calls v0 calls) files) = Inr n"
  shows "(92 # u ''ADocument checking completed. No errors found.*'')
           \<in> set (ignore_re (validate_calls v0 calls))
       \<and> (\<exists>t. fst (run_validator env (validate_calls v0 calls) files None) = Inr t
            \<and> n \<le> length (filter
                  (\<lambda>l. l \<noteq> [] \<and> \<not> prefix (u ''Document checking completed. No errors found'') l)
                  (splitlines t)))"
proof -
  let ?v = "validate_calls v0 calls"
  let ?d = "92 # u ''ADocument checking completed. No errors found.*''"
  have d: "?d \<in> set (ignore_re ?v)"
    using init_has_default_pattern[OF assms(1)] by (simp add: validate_calls_keep_ignore_re)
  from assms(3) obtain t where t: "fst (run_validator env ?v files None) = Inr t"
    by (auto simp: validate_def split: sum.splits)
  let ?e = "filter (\<lambda>l. l \<noteq> []) (splitlines t)"
  let ?v' = "override_ignore ?v ?e"
  have re: "ignore_re ?v' = ignore_re ?v"
    by (simp add: override_ignore_def)
  from assms(3) t obtain r where
    r: "filter_ignore_re env (ignore_re ?v) (filter_ignore (ignore ?v') ?e) = Inr r"
    and n: "n = length r"
    by (auto simp: validate_def surviving_lines_def Let_def re split: sum.splits)
  from filter_ignore_re_result[OF r]
  have comp: "\<forall>p\<in>set (ignore_re ?v). re_compile env p \<noteq> None"
    and req: "r = filter (\<lambda>l. \<forall>p\<in>set (ignore_re ?v). \<forall>m. re_compile env p = Some m \<longrightarrow> \<not> re_search m l)
                (filter_ignore (ignore ?v') ?e)"
    by simp_all
  from comp d obtain m where m: "re_compile env ?d = Some m" by auto
  have "r = filter (\<lambda>l. (\<forall>p\<in>set (ignore_re ?v). \<forall>m. re_compile env p = Some m \<longrightarrow> \<not> re_search m l)
                \<and> (\<forall>i\<in>set (ignore ?v'). \<not> contains i l) \<and> l \<noteq> []) (splitlines t)"
    unfolding req by (auto simp: filter_ignore_eq intro: filter_cong)
  then have "n = length (filter (\<lambda>l. (\<forall>p\<in>set (ignore_re ?v). \<forall>m. re_compile env p = Some m \<longrightarrow> \<not> re_search m l)
                \<and> (\<forall>i\<in>set (ignore ?v'). \<not> contains i l) \<and> l \<noteq> []) (splitlines t))"
    using n by simp
  also have "\<dots> \<le> length (filter
                  (\<lambda>l. l \<noteq> [] \<and> \<not> prefix (u ''Document checking completed. No errors found'') l)
                  (splitlines t))"
  proof (rule length_filter_mono)
    fix l
    assume "(\<forall>p\<in>set (ignore_re ?v). \<forall>m. re_compile env p = Some m \<longrightarrow> \<not> re_search m l)
                \<and> (\<forall>i\<in>set (ignore ?v'). \<not> contains i l) \<and> l \<noteq> []"
    with d m have "\<not> re_search m l" "l \<noteq> []" by auto
    with fragment_default_search[OF assms(2) m]
    show "l \<noteq> [] \<and> \<not> prefix (u ''Document checking completed. No errors found'') l"
      by blast
  qed
  finally have "n \<le> length (filter
                  (\<lambda>l. l \<noteq> [] \<and> \<not> prefix (u ''Document checking completed. No errors found'') l)
                  (splitlines t))" .
  with d t show ?thesis by blast
qed

theorem all_clear_line_never_counted_witness:
  "(92 # u ''ADocument checking completed. No errors found.*'')
     \<in> set (ignore_re (validate_calls example_validator
              [(small_env (\<lambda>cmd. Inr gnu_output), [u ''a.html''])]))
   \<and> (\<exists>t. fst (run_validator (small_env (\<lambda>cmd. Inr gnu_output))
               (validate_calls example_validator
                  [(small_env (\<lambda>cmd. Inr gnu_output), [u ''a.html''])])
               [u ''b.html''] None) = Inr t
         \<and> 1 \<le> length (filter
                  (\<lambda>l. l \<noteq> [] \<and> \<not> prefix (u ''Document checking completed. No errors found'') l)
                  (splitlines t)))"
proof -
  let ?E = "small_env (\<lambda>cmd. Inr gnu_output)"
  have i: "fst (Validator_init (small_env (\<lambda>cmd. Inr [])) foo_heap (Some 0) None False True
              None None None)
     = Inr example_validator"
    by (rule init_example)
  have "snd (validate ?E example_validator [u ''a.html'']) = example_validator"
    by (rule validate_keeps_non_xml) (simp add: example_validator_def)
  then have c: "validate_calls example_validator [(?E, [u ''a.html''])] = example_validator"
    by simp
  have n: "fst (validate ?E (validate_calls example_validator [(?E, [u ''a.html''])]) [u ''b.html''])
      = Inr 1"
    by (simp only: c validate_gnu_example)
  from all_clear_line_never_counted[OF i small_env_agrees n] show ?thesis .
qed

subsection \<open>File discovery\<close>

lemma set_remove_blacklisted:
  "distinct ds \<Longrightarrow> set (remove_blacklisted bl ds) = set ds - set bl \<and> distinct (remove_blacklisted bl ds)"
proof (induction bl arbitrary: ds)
  case Nil
  then show ?case by simp
next
  case (Cons b bl)
  let ?ds' = "if b \<in> set ds then remove1 b ds else ds"
  have d: "distinct ?ds'" using Cons.prems by simp
  have s: "set ?ds' = set ds - {b}" using Cons.prems by auto
  from Cons.IH[OF d] s show ?case by auto
qed

lemma set_remove_each: "set (remove_each hidden ds) \<subseteq> set ds"
proof (induction hidden arbitrary: ds)
  case Nil
  then show ?case by simp
next
  case (Cons d hidden)
  have "set (remove_each hidden (remove1 d ds)) \<subseteq> set (remove1 d ds)" by (rule Cons.IH)
  also have "\<dots> \<subseteq> set ds" by (rule set_remove1_subset)
  finally show ?case by simp
qed

lemma all_results_Inr: "all_results xs = Inr rs \<Longrightarrow> xs = map Inr rs"
  by (induction xs arbitrary: rs) (auto split: sum.splits)

lemma append_matches_sound:
  "append_matches skip root fs = Inr r \<Longrightarrow> set r \<subseteq> path_join root ` set fs"
  by (induction fs arbitrary: r) (auto split: sum.splits if_splits)

lemma match_patterns_sound:
  "match_patterns fnm ms skip root fnames = Inr found \<Longrightarrow> set found \<subseteq> path_join root ` set fnames"
proof (induction ms arbitrary: found)
  case Nil
  then show ?case by simp
next
  case (Cons p ms)
  from Cons.prems obtain a b where
    a: "append_matches skip root (filter (\<lambda>name. fnm name p) fnames) = Inr a"
    and b: "match_patterns fnm ms skip root fnames = Inr b" and f: "found = a @ b"
    by (auto split: sum.splits)
  from append_matches_sound[OF a] Cons.IH[OF b] f show ?case by auto
qed

lemma wf_fs_child:
  assumes "wf_fs (Dir subs fnames)" and "map_of subs d = Some t"
  shows "wf_fs t"
proof -
  from assms(2) have "(d, t) \<in> set subs" by (rule map_of_SomeD)
  with assms(1) show ?thesis by (auto simp: list_all_iff)
qed

lemma walk_visits:
  assumes "wf_fs t" and "walk fnm ms bl skip comps root t = Inr visits"
    and "(cs, r, found) \<in> set visits"
  shows "\<exists>ext sub. cs = comps @ ext \<and> set ext \<inter> set bl = {}
           \<and> r = foldl path_join root ext \<and> subtree t ext = Some sub
           \<and> set found \<subseteq> path_join r ` set (filenames sub)"
  using assms
proof (induction fnm ms bl skip comps root t arbitrary: visits cs r found rule: walk.induct)
  case (1 fnm ms bl skip comps root subs fnames)
  let ?dn = "remove_blacklisted bl (map fst subs)"
  let ?F = "\<lambda>d. case map_of subs d of None \<Rightarrow> Inr []
                 | Some x \<Rightarrow> walk fnm ms bl skip (comps @ [d]) (path_join root d) x"
  from "1.prems"(2) obtain kept found0 below where
    kept: "(if skip then case invisible_of ?dn of Inl x \<Rightarrow> Inl x
                                 | Inr h \<Rightarrow> Inr (remove_each h ?dn)
            else Inr ?dn) = Inr kept"
    and found0: "match_patterns fnm ms skip root fnames = Inr found0"
    and below: "all_results (map ?F kept) = Inr below"
    and visits: "visits = (comps, root, found0) # concat below"
    by (auto simp: Let_def split: sum.splits)
  have dist: "distinct (map fst subs)" using "1.prems"(1) by simp
  have "set kept \<subseteq> set ?dn"
    using kept set_remove_each by (auto split: if_splits sum.splits)
  with set_remove_blacklisted[OF dist, of bl]
  have keptsub: "set kept \<subseteq> set (map fst subs) - set bl" by auto
  show ?case
  proof (cases "(cs, r, found) = (comps, root, found0)")
    case True
    then have "cs = comps @ []" "set [] \<inter> set bl = {}" "r = foldl path_join root []"
      "subtree (Dir subs fnames) [] = Some (Dir subs fnames)"
      "set found \<subseteq> path_join r ` set (filenames (Dir subs fnames))"
      using match_patterns_sound[OF found0] by simp_all
    then show ?thesis by blast
  next
    case False
    with "1.prems"(3) visits obtain vs where vs: "vs \<in> set below" "(cs, r, found) \<in> set vs"
      by auto
    from all_results_Inr[OF below] have "map ?F kept = map Inr below" .
    with vs(1) have "Inr vs \<in> set (map ?F kept)" by simp
    then obtain d where d: "d \<in> set kept" "?F d = Inr vs" by auto
    from d(1) keptsub have din: "d \<in> set (map fst subs)" and dbl: "d \<notin> set bl" by auto
    then obtain t' where t': "map_of subs d = Some t'"
      by (metis map_of_eq_None_iff not_Some_eq set_map)
    with d(2) have w: "walk fnm ms bl skip (comps @ [d]) (path_join root d) t' = Inr vs"
      by simp
    have wf': "wf_fs t'" by (rule wf_fs_child[OF "1.prems"(1) t'])
    from "1.IH"[OF refl kept found0 d(1) t' wf' w vs(2)]
    obtain ext sub where e: "cs = (comps @ [d]) @ ext" "set ext \<inter> set bl = {}"
      "r = foldl path_join (path_join root d) ext" "subtree t' ext = Some sub"
      "set found \<subseteq> path_join r ` set (filenames sub)"
      by blast
    then have "cs = comps @ (d # ext)" "set (d # ext) \<inter> set bl = {}"
      "r = foldl path_join root (d # ext)" "subtree (Dir subs fnames) (d # ext) = Some sub"
      using dbl t' by simp_all
    with e(5) show ?thesis by blast
  qed
qed

lemma good_name_last: "good_name n \<Longrightarrow> last n \<noteq> 47"
  by (metis good_name_def last_in_set)

lemma path_join_good:
  assumes "good_name n"
  shows "path_join a n = a @ (if a = [] \<or> last a = 47 then [] else [47]) @ n"
proof -
  from assms obtain c cs where n: "n = c # cs" "c \<noteq> 47"
    by (cases n) (auto simp: good_name_def)
  then show ?thesis by (simp add: path_join_def)
qed

lemma foldl_join_tail:
  assumes "x \<noteq> []" and "last x \<noteq> 47" and "list_all good_name ns"
  shows "foldl path_join x ns = x @ concat (map (\<lambda>n. 47 # n) ns)"
  using assms
proof (induction ns arbitrary: x)
  case Nil
  then show ?case by simp
next
  case (Cons n ns)
  then have g: "good_name n" by simp
  have j: "path_join x n = x @ [47] @ n"
    using path_join_good[OF g, of x] Cons.prems(1,2) by simp
  have ne: "n \<noteq> []" using g by (simp add: good_name_def)
  have "path_join x n \<noteq> []" "last (path_join x n) \<noteq> 47"
    using j ne good_name_last[OF g] by simp_all
  from Cons.IH[OF this] Cons.prems(3) j show ?case by simp
qed

lemma foldl_join_good:
  assumes "list_all good_name (n # ns)"
  shows "foldl path_join root (n # ns) =
           root @ (if root = [] \<or> last root = 47 then [] else [47]) @ n
             @ concat (map (\<lambda>n. 47 # n) ns)"
proof -
  from assms have g: "good_name n" and gs: "list_all good_name ns" by simp_all
  have ne: "n \<noteq> []" using g by (simp add: good_name_def)
  have "path_join root n \<noteq> []" "last (path_join root n) \<noteq> 47"
    using path_join_good[OF g, of root] ne good_name_last[OF g] by simp_all
  from foldl_join_tail[OF this gs] path_join_good[OF g, of root] show ?thesis by simp
qed

lemma takeWhile_name:
  fixes n :: ustr and ns :: "ustr list"
  assumes "47 \<notin> set n"
  shows "takeWhile (\<lambda>c. c \<noteq> 47) (n @ concat (map (\<lambda>n. 47 # n) ns)) = n"
proof -
  have "takeWhile (\<lambda>c. c \<noteq> (47::nat)) (concat (map (\<lambda>n. 47 # n) ns)) = []"
    by (cases ns) simp_all
  moreover have "takeWhile (\<lambda>c. c \<noteq> 47) (n @ concat (map (\<lambda>n. 47 # n) ns))
      = n @ takeWhile (\<lambda>c. c \<noteq> 47) (concat (map (\<lambda>n. 47 # n) ns))"
    using assms by (intro takeWhile_append2) auto
  ultimately show ?thesis by simp
qed

lemma slash_join_inj:
  assumes "list_all good_name (n # ns)" and "list_all good_name (m # ms)"
    and "n @ concat (map (\<lambda>n. 47 # n) ns) = m @ concat (map (\<lambda>n. 47 # n) ms)"
  shows "n = m \<and> ns = ms"
  using assms
proof (induction ns arbitrary: n m ms)
  case Nil
  from Nil.prems have sn: "47 \<notin> set n" and sm: "47 \<notin> set m"
    by (simp_all add: good_name_def)
  have "takeWhile (\<lambda>c. c \<noteq> 47) (n @ concat (map (\<lambda>n. 47 # n) [])) = n"
    "takeWhile (\<lambda>c. c \<noteq> 47) (m @ concat (map (\<lambda>n. 47 # n) ms)) = m"
    by (rule takeWhile_name[OF sn], rule takeWhile_name[OF sm])
  with Nil.prems(3) have nm: "n = m" by metis
  with Nil.prems(3) have "concat (map (\<lambda>n. 47 # n) ms) = []" by simp
  then have "ms = []" by (cases ms) simp_all
  with nm show ?case by simp
next
  case (Cons a ns)
  from Cons.prems have sn: "47 \<notin> set n" and sm: "47 \<notin> set m"
    by (simp_all add: good_name_def)
  have "takeWhile (\<lambda>c. c \<noteq> 47) (n @ concat (map (\<lambda>n. 47 # n) (a # ns))) = n"
    "takeWhile (\<lambda>c. c \<noteq> 47) (m @ concat (map (\<lambda>n. 47 # n) ms)) = m"
    by (rule takeWhile_name[OF sn], rule takeWhile_name[OF sm])
  with Cons.prems(3) have nm: "n = m" by metis
  with Cons.prems(3) have eq: "concat (map (\<lambda>n. 47 # n) (a # ns)) = concat (map (\<lambda>n. 47 # n) ms)"
    by simp
  then obtain b ms' where ms: "ms = b # ms'" by (cases ms) simp_all
  with eq have "a @ concat (map (\<lambda>n. 47 # n) ns) = b @ concat (map (\<lambda>n. 47 # n) ms')" by simp
  moreover have "list_all good_name (a # ns)" "list_all good_name (b # ms')"
    using Cons.prems(1,2) ms by simp_all
  ultimately have "a = b \<and> ns = ms'" by (rule Cons.IH[rotated 2])
  with nm ms show ?case by simp
qed

lemma foldl_join_inj:
  assumes "list_all good_name xs" and "list_all good_name ys" and "xs \<noteq> []" and "ys \<noteq> []"
    and "foldl path_join root xs = foldl path_join root ys"
  shows "xs = ys"
proof -
  from assms(3,4) obtain n ns m ms where xs: "xs = n # ns" and ys: "ys = m # ms"
    by (cases xs; cases ys) auto
  from assms(5) have "n @ concat (map (\<lambda>n. 47 # n) ns) = m @ concat (map (\<lambda>n. 47 # n) ms)"
    unfolding xs ys
    using foldl_join_good[of n ns root] foldl_join_good[of m ms root] assms(1,2) xs ys
    by simp
  from slash_join_inj[OF _ _ this] assms(1,2) xs ys show ?thesis by simp
qed

lemma subtree_good:
  assumes "wf_fs t" and "subtree t ds = Some sub"
  shows "list_all good_name ds \<and> wf_fs sub"
  using assms
proof (induction ds arbitrary: t)
  case Nil
  then show ?case by simp
next
  case (Cons d ds)
  obtain subs fnames where t: "t = Dir subs fnames" by (cases t)
  with Cons.prems(2) obtain t' where t': "map_of subs d = Some t'" "subtree t' ds = Some sub"
    by (auto split: option.splits)
  from t'(1) have "d \<in> set (map fst subs)"
    by (metis map_of_eq_None_iff option.distinct(1) set_map)
  with Cons.prems(1) t have g: "good_name d" by (auto simp: list_all_iff)
  have "wf_fs t'" using wf_fs_child Cons.prems(1) t t'(1) by blast
  from Cons.IH[OF this t'(2)] g show ?case by simp
qed

lemma file_at_good:
  assumes "wf_fs t" and "file_at t ds f"
  shows "list_all good_name (ds @ [f])"
proof -
  from assms(2) obtain sub where s: "subtree t ds = Some sub" "f \<in> set (filenames sub)"
    by (auto simp: file_at_def split: option.splits)
  from subtree_good[OF assms(1) s(1)] have g: "list_all good_name ds" and w: "wf_fs sub"
    by simp_all
  from w s(2) have "good_name f" by (cases sub) (auto simp: list_all_iff)
  with g show ?thesis by simp
qed

text \<open>
  C6. In a well-formed tree, when \<open>all_files\<close> returns: every directory that the walk
  entered is reached from the top through names that are not in the blacklist (so no
  directory with a blacklisted name was descended into), its \<open>root\<close> string is the join of
  these names onto \<open>directory\<close>; and no file that lies beneath a directory with a
  blacklisted name has its path in the result, whatever the patterns and the test for a
  match are.
\<close>

theorem blacklisted_directories_are_pruned:
  assumes "wf_fs t"
    and "all_files fnm (Some t) directory match blacklist skip = Inr files"
  shows "(\<exists>visits.
            walk fnm (case match of Pattern p \<Rightarrow> [p] | Patterns ps \<Rightarrow> ps)
              (case blacklist of None \<Rightarrow> [] | Some b \<Rightarrow> b) skip [] directory t = Inr visits
            \<and> files = concat (map (\<lambda>(comps, root, found). found) visits)
            \<and> (\<forall>(comps, root, found) \<in> set visits.
                  subtree t comps \<noteq> None
                  \<and> root = foldl path_join directory comps
                  \<and> set comps \<inter> set (case blacklist of None \<Rightarrow> [] | Some b \<Rightarrow> b) = {}))
       \<and> (\<forall>ds f. file_at t ds f
                  \<and> set ds \<inter> set (case blacklist of None \<Rightarrow> [] | Some b \<Rightarrow> b) \<noteq> {}
              \<longrightarrow> path_join (foldl path_join directory ds) f \<notin> set files)"
proof -
  let ?bl = "case blacklist of None \<Rightarrow> [] | Some b \<Rightarrow> b"
  let ?ms = "case match of Pattern p \<Rightarrow> [p] | Patterns ps \<Rightarrow> ps"
  from assms(2) obtain visits where
    w: "walk fnm ?ms ?bl skip [] directory t = Inr visits"
    and f: "files = concat (map (\<lambda>(comps, root, found). found) visits)"
    by (auto simp: all_files_def Let_def split: sum.splits)
  have v: "\<forall>(comps, root, found) \<in> set visits.
             subtree t comps \<noteq> None \<and> root = foldl path_join directory comps
             \<and> set comps \<inter> set ?bl = {}"
  proof (clarify, intro conjI)
    fix comps root found
    assume m: "(comps, root, found) \<in> set visits"
    from walk_visits[OF assms(1) w m]
    show "subtree t comps \<noteq> None" "root = foldl path_join directory comps"
      "set comps \<inter> set ?bl = {}"
      by auto
  qed
  have p: "\<forall>ds f. file_at t ds f \<and> set ds \<inter> set ?bl \<noteq> {}
              \<longrightarrow> path_join (foldl path_join directory ds) f \<notin> set files"
  proof (intro allI impI notI)
    fix ds f
    assume a: "file_at t ds f \<and> set ds \<inter> set ?bl \<noteq> {}"
      and "path_join (foldl path_join directory ds) f \<in> set files"
    with f obtain comps root found where
      m: "(comps, root, found) \<in> set visits"
      and pf: "path_join (foldl path_join directory ds) f \<in> set found"
      by auto
    from walk_visits[OF assms(1) w m] obtain sub where
      c: "set comps \<inter> set ?bl = {}" "root = foldl path_join directory comps"
      "subtree t comps = Some sub" "set found \<subseteq> path_join root ` set (filenames sub)"
      by auto
    from pf c(4) obtain f' where f': "f' \<in> set (filenames sub)"
      "path_join (foldl path_join directory ds) f = path_join root f'"
      by auto
    from c(3) f'(1) have fa: "file_at t comps f'" by (simp add: file_at_def)
    from f'(2) c(2) have "foldl path_join directory (ds @ [f]) = foldl path_join directory (comps @ [f'])"
      by simp
    from foldl_join_inj[OF file_at_good[OF assms(1) conjunct1[OF a]] file_at_good[OF assms(1) fa] _ _ this]
    have "ds = comps" by simp
    with a c(1) show False by simp
  qed
  from w f v p show ?thesis by blast
qed

lemma wf_site_tree: "wf_fs site_tree"
  by (simp add: site_tree_def good_name_def u_def)

lemma all_files_site_tree:
  "all_files star_suffix_match (Some site_tree) (u ''site'') (Pattern (u ''*.html''))
     (Some [u ''node_modules'']) True
   = Inr [u ''site/index.html'', u ''site/docs/a.html'']"
  by (simp add: all_files_def site_tree_def star_suffix_match_def path_join_def u_def)

theorem blacklisted_directories_are_pruned_witness:
  "all_files star_suffix_match (Some site_tree) (u ''site'') (Pattern (u ''*.html''))
     (Some [u ''node_modules'']) True
     = Inr [u ''site/index.html'', u ''site/docs/a.html'']
   \<and> u ''site/node_modules/x.html'' \<notin> set [u ''site/index.html'', u ''site/docs/a.html'']"
proof -
  have fa: "file_at site_tree [u ''node_modules''] (u ''x.html'')"
    by (simp add: file_at_def site_tree_def u_def)
  have bl: "set [u ''node_modules''] \<inter> set (case Some [u ''node_modules''] of None \<Rightarrow> [] | Some b \<Rightarrow> b) \<noteq> {}"
    by simp
  from blacklisted_directories_are_pruned[OF wf_site_tree all_files_site_tree] fa bl
  have "path_join (foldl path_join (u ''site'') [u ''node_modules'']) (u ''x.html'')
          \<notin> set [u ''site/index.html'', u ''site/docs/a.html'']"
    by blast
  moreover have "path_join (foldl path_join (u ''site'') [u ''node_modules'']) (u ''x.html'')
      = u ''site/node_modules/x.html''"
    by (simp add: path_join_def u_def)
  ultimately show ?thesis using all_files_site_tree by simp
qed

end
